theory Spec2Isabelle
  imports Main "HOL-Library.Word"
begin

unbundle bit_operations_syntax

section \<open>Data model (Include/DS3231.h)\<close>

text \<open>
  \<^verbatim>\<open>DS3231_State\<close> is the enum of the header. \<^verbatim>\<open>HAL_StatusTypeDef\<close> is the status enum
  of the STM32 HAL (it comes with \<^verbatim>\<open>main.h\<close>, which is not part of the driver); only its
  four constants matter here.
\<close>

datatype DS3231_State = DS3231_DISABLED | DS3231_ENABLED

datatype HAL_StatusTypeDef = HAL_OK | HAL_ERROR | HAL_BUSY | HAL_TIMEOUT

text \<open>
  \<^verbatim>\<open>struct DS3231_DateTime\<close>: every field with the width the header gives it
  (\<^verbatim>\<open>uint8_t\<close>, and \<^verbatim>\<open>uint16_t\<close> for the year).
\<close>

record DS3231_DateTime =
  Day :: "8 word"
  Date :: "8 word"
  Month :: "8 word"
  Year :: "16 word"
  Hour_24mode :: "8 word"
  Minute :: "8 word"
  Second :: "8 word"
  Enable :: DS3231_State

text \<open>
  The two constant tables of \<^verbatim>\<open>DS3231.c\<close>, both \<^verbatim>\<open>static const uint8_t [12]\<close>.
\<close>

definition days_in_month :: "8 word list" where
  "days_in_month = [31, 28, 31, 30, 31, 30, 31, 31, 30, 31, 30, 31]"

definition dow :: "8 word list" where
  "dow = [0, 3, 2, 5, 0, 3, 5, 1, 4, 6, 2, 4]"

text \<open>
  C does not check an array index. Reading a 12-entry table at an index outside 0..11 is
  undefined behaviour; the model makes it an error value that carries the index, so that
  every such read is a visible branch.
\<close>

datatype error = IndexOutOfBounds int

definition table_read :: "8 word list \<Rightarrow> int \<Rightarrow> error + 8 word" where
  "table_read tbl i =
     (if 0 \<le> i \<and> i < int (length tbl) then Inr (tbl ! nat i) else Inl (IndexOutOfBounds i))"

section \<open>BCD helpers\<close>

text \<open>
  \<^verbatim>\<open>return (((bin & 0xF0) >> 4) * 10) + (bin & 0x0F);\<close>
  The operands are promoted to \<^verbatim>\<open>int\<close>, where nothing overflows (at most 15 * 10 + 15);
  the result is converted to \<^verbatim>\<open>uint8_t\<close>.
\<close>

definition DS3231_DecodeBCD :: "8 word \<Rightarrow> 8 word" where
  "DS3231_DecodeBCD bin =
     word_of_int (drop_bit 4 (uint (bin AND 0xF0)) * 10 + uint (bin AND 0x0F))"

text \<open>
  \<^verbatim>\<open>return (dec % 10 + ((dec / 10) << 4));\<close>
  Again computed in \<^verbatim>\<open>int\<close> and converted to \<^verbatim>\<open>uint8_t\<close> on return (for
  \<^verbatim>\<open>dec\<close> of 160 and more the shifted digit no longer fits and the conversion truncates).
\<close>

definition DS3231_EncodeBCD :: "8 word \<Rightarrow> 8 word" where
  "DS3231_EncodeBCD dec =
     word_of_int (uint dec mod 10 + push_bit 4 (uint dec div 10))"

section \<open>DS3231\_SetDateTime\<close>

text \<open>
  The first half of \<^verbatim>\<open>DS3231_SetDateTime\<close>: the seven legality checks in the order of the
  source, each either storing the BCD byte in \<^verbatim>\<open>buffer\<close> or returning \<^verbatim>\<open>HAL_ERROR\<close>.
  The source joins the two comparisons of each check with \<^verbatim>\<open>|\<close>; on the values 0 and 1 that
  comparisons yield this is disjunction. The result is the error status or the filled
  buffer \<^verbatim>\<open>buffer[0..6]\<close>. \<^verbatim>\<open>dt->Year - 2000U\<close> is an \<^verbatim>\<open>unsigned int\<close> subtraction,
  converted to the \<^verbatim>\<open>uint8_t\<close> parameter of the encoder.
\<close>

definition DS3231_SetDateTime_buffer :: "DS3231_DateTime \<Rightarrow> HAL_StatusTypeDef + 8 word list" where
  "DS3231_SetDateTime_buffer dt =
     (if (Day dt \<ge> 1) \<or> (Day dt \<le> 7) then
        let b3 = DS3231_EncodeBCD (Day dt) in
        if (Date dt \<ge> 1) \<or> (Date dt \<le> 31) then
          let b4 = DS3231_EncodeBCD (Date dt) in
          if (Month dt \<ge> 1) \<or> (Month dt \<le> 12) then
            let b5 = DS3231_EncodeBCD (Month dt) in
            if (Year dt \<ge> 0) \<or> (Year dt \<le> 99) then
              let b6 = DS3231_EncodeBCD (ucast ((ucast (Year dt) :: 32 word) - 2000)) in
              if (Hour_24mode dt \<ge> 0) \<or> (Hour_24mode dt \<le> 23) then
                let b2 = DS3231_EncodeBCD (Hour_24mode dt) in
                if (Minute dt \<ge> 0) \<or> (Minute dt \<le> 59) then
                  let b1 = DS3231_EncodeBCD (Minute dt) in
                  if (Second dt \<ge> 0) \<or> (Second dt \<le> 59) then
                    let b0 = DS3231_EncodeBCD (Second dt) in
                    Inr [b0, b1, b2, b3, b4, b5, b6]
                  else Inl HAL_ERROR
                else Inl HAL_ERROR
              else Inl HAL_ERROR
            else Inl HAL_ERROR
          else Inl HAL_ERROR
        else Inl HAL_ERROR
      else Inl HAL_ERROR)"

text \<open>
  The whole function. The register bus is the STM32 HAL's and outside the driver, so the
  three register accessors are parameters acting on a bus state \<open>'b\<close>:
  \<open>write_regs reg data\<close> for \<^verbatim>\<open>DS3231_WriteRegisters\<close>, \<open>read_reg reg\<close> for
  \<^verbatim>\<open>DS3231_ReadRegister\<close> (status and the byte read) and \<open>write_reg reg byte\<close> for
  \<^verbatim>\<open>DS3231_WriteRegister\<close>. Register 0x00 is \<^verbatim>\<open>DS3231_REG_SECOND\<close>, 0x0E is
  \<^verbatim>\<open>DS3231_REG_CONTROL\<close>.
\<close>

definition DS3231_SetDateTime ::
  "(8 word \<Rightarrow> 8 word list \<Rightarrow> 'b \<Rightarrow> HAL_StatusTypeDef \<times> 'b) \<Rightarrow>
   (8 word \<Rightarrow> 'b \<Rightarrow> (HAL_StatusTypeDef \<times> 8 word) \<times> 'b) \<Rightarrow>
   (8 word \<Rightarrow> 8 word \<Rightarrow> 'b \<Rightarrow> HAL_StatusTypeDef \<times> 'b) \<Rightarrow>
   DS3231_DateTime \<Rightarrow> 'b \<Rightarrow> HAL_StatusTypeDef \<times> 'b" where
  "DS3231_SetDateTime write_regs read_reg write_reg dt bus =
     (case DS3231_SetDateTime_buffer dt of
        Inl e \<Rightarrow> (e, bus)
      | Inr buffer \<Rightarrow>
          (case write_regs 0x00 buffer bus of
             (status, bus1) \<Rightarrow>
               if status \<noteq> HAL_OK then (status, bus1)
               else
                 (case read_reg 0x0E bus1 of
                    ((status, regCONTROL), bus2) \<Rightarrow>
                      if status \<noteq> HAL_OK then (status, bus2)
                      else
                        let regCONTROL =
                              (if Enable dt = DS3231_ENABLED then regCONTROL AND NOT 0x80
                               else regCONTROL OR 0x80)
                        in write_reg 0x0E regCONTROL bus2)))"

section \<open>DS3231\_ToUnixTime\<close>

text \<open>
  The loop \<^verbatim>\<open>for (uint8_t i=1; i<months; i++) days += days_in_month[i - 1];\<close>
  \<^verbatim>\<open>days\<close> is \<^verbatim>\<open>uint16_t\<close> and wraps; \<^verbatim>\<open>i\<close> stays below \<^verbatim>\<open>months\<close>, a \<^verbatim>\<open>uint8_t\<close>, and
  cannot wrap, so it is an \<open>int\<close> here.
\<close>

function for_months :: "int \<Rightarrow> int \<Rightarrow> 16 word \<Rightarrow> error + 16 word" where
  "for_months i months days =
     (if i < months then
        (case table_read days_in_month (i - 1) of
           Inl e \<Rightarrow> Inl e
         | Inr v \<Rightarrow> for_months (i + 1) months (days + ucast v))
      else Inr days)"
  by pat_completeness auto
termination
  by (relation "measure (\<lambda>(i, months, days). nat (months - i))") auto

declare for_months.simps [simp del]

text \<open>
  \<^verbatim>\<open>void DS3231_ToUnixTime(DS3231_DateTime *dt, uint32_t *unixtime)\<close>.
  The second argument is what \<^verbatim>\<open>*unixtime\<close> holds before the call, the result what it
  holds after it: the function returns nothing else. For a year before 2000 the source
  returns without storing. \<^verbatim>\<open>SECONDS_FROM_1970_TO_2000\<close> is 946684800. The sum
  \<^verbatim>\<open>365 * years + (years + 3) / 4\<close> is computed in \<^verbatim>\<open>int\<close> and added into the
  \<^verbatim>\<open>uint16_t days\<close>; the last line is \<^verbatim>\<open>unsigned long\<close> arithmetic stored into a
  \<^verbatim>\<open>uint32_t\<close>.
\<close>

definition DS3231_ToUnixTime :: "DS3231_DateTime \<Rightarrow> 32 word \<Rightarrow> error + 32 word" where
  "DS3231_ToUnixTime dt unixtime =
     (let years = Year dt;
          months = Month dt;
          days = (ucast (Date dt) :: 16 word);
          hours = Hour_24mode dt;
          minutes = Minute dt;
          seconds = Second dt
      in if years \<ge> 2000 then
           let years = years - 2000;
               days = days - 1
           in (case for_months 1 (uint months) days of
                 Inl e \<Rightarrow> Inl e
               | Inr days \<Rightarrow>
                   let days = (if months > 2 \<and> years mod 4 = 0 then days + 1 else days);
                       days = (word_of_int
                                 (uint days + (365 * uint years + (uint years + 3) div 4)) :: 16 word)
                   in Inr (((ucast days * 24 + ucast hours) * 60 + ucast minutes) * 60
                           + ucast seconds + 946684800))
         else Inr unixtime)"

section \<open>DS3231\_ToDateTime\<close>

text \<open>
  The leap-year test the source writes out twice:
  \<^verbatim>\<open>currYear % 400 == 0 || (currYear % 4 == 0 && currYear % 100 != 0)\<close>.
  \<^verbatim>\<open>currYear\<close> is an \<^verbatim>\<open>int32_t\<close> that starts at 1970 and only grows, so C's remainder
  and HOL's \<open>mod\<close> agree on it.
\<close>

definition is_leap_year :: "int \<Rightarrow> bool" where
  "is_leap_year currYear =
     (currYear mod 400 = 0 \<or> (currYear mod 4 = 0 \<and> currYear mod 100 \<noteq> 0))"

text \<open>
  The first \<^verbatim>\<open>while (1)\<close>: it leaves with \<^verbatim>\<open>break\<close> once fewer days remain than the
  current year has. The state is \<^verbatim>\<open>(currYear, daysTillNow)\<close>; the day count decreases
  in every round, which is the termination argument.
\<close>

function year_loop :: "int \<Rightarrow> int \<Rightarrow> int \<times> int" where
  "year_loop currYear daysTillNow =
     (if is_leap_year currYear then
        (if daysTillNow < 366 then (currYear, daysTillNow)
         else year_loop (currYear + 1) (daysTillNow - 366))
      else
        (if daysTillNow < 365 then (currYear, daysTillNow)
         else year_loop (currYear + 1) (daysTillNow - 365)))"
  by pat_completeness auto
termination
  by (relation "measure (\<lambda>(currYear, daysTillNow). nat daysTillNow)") auto

declare year_loop.simps [simp del]

text \<open>
  The month loop of a leap year (\<^verbatim>\<open>flag == 1\<close>): February is the literal 29, every other
  month is read from the table at \<^verbatim>\<open>index\<close>. The state is
  \<^verbatim>\<open>(index, month, extraDays)\<close>; the loop has no bound on \<^verbatim>\<open>index\<close> of its own, so the
  read can leave the table. \<^verbatim>\<open>index\<close> and \<^verbatim>\<open>month\<close> are \<^verbatim>\<open>uint8_t\<close> counters that stay
  at 12 or below here.
\<close>

function month_loop_leap :: "int \<Rightarrow> int \<Rightarrow> int \<Rightarrow> error + (int \<times> int)" where
  "month_loop_leap index month extraDays =
     (if index = 1 then
        (if extraDays - 29 < 0 then Inr (month, extraDays)
         else month_loop_leap (index + 1) (month + 1) (extraDays - 29))
      else
        (case table_read days_in_month index of
           Inl e \<Rightarrow> Inl e
         | Inr v \<Rightarrow>
             if extraDays - uint v < 0 then Inr (month, extraDays)
             else month_loop_leap (index + 1) (month + 1) (extraDays - uint v)))"
  by pat_completeness auto
termination
  by (relation "measure (\<lambda>(index, month, extraDays). nat (12 - index))")
     (auto simp: table_read_def days_in_month_def split: if_splits)

declare month_loop_leap.simps [simp del]

text \<open>The month loop of a common year (\<^verbatim>\<open>flag == 0\<close>).\<close>

function month_loop_common :: "int \<Rightarrow> int \<Rightarrow> int \<Rightarrow> error + (int \<times> int)" where
  "month_loop_common index month extraDays =
     (case table_read days_in_month index of
        Inl e \<Rightarrow> Inl e
      | Inr v \<Rightarrow>
          if extraDays - uint v < 0 then Inr (month, extraDays)
          else month_loop_common (index + 1) (month + 1) (extraDays - uint v))"
  by pat_completeness auto
termination
  by (relation "measure (\<lambda>(index, month, extraDays). nat (12 - index))")
     (auto simp: table_read_def days_in_month_def split: if_splits)

declare month_loop_common.simps [simp del]

text \<open>
  The block after the loops (\<^verbatim>\<open>// Current Month\<close>): with days left over the date lies
  in the month after the consumed ones; with none left it is the last day of the last
  consumed month, read from the table at \<^verbatim>\<open>month - 1\<close> (29 for a leap February).
  \<^verbatim>\<open>date\<close> is a \<^verbatim>\<open>uint8_t\<close>.
\<close>

definition current_month :: "bool \<Rightarrow> int \<Rightarrow> int \<Rightarrow> error + (int \<times> 8 word)" where
  "current_month flag month extraDays =
     (if extraDays > 0 then Inr (month + 1, word_of_int extraDays)
      else if month = 2 \<and> flag then Inr (month, 29)
      else (case table_read days_in_month (month - 1) of
              Inl e \<Rightarrow> Inl e
            | Inr v \<Rightarrow> Inr (month, v)))"

text \<open>
  The last four lines:
  \<^verbatim>\<open>currYear -= month < 3;\<close>
  \<^verbatim>\<open>day = (currYear + currYear / 4 - currYear / 100 + currYear / 400 + dow[month - 1] + date) % 7;\<close>
  \<^verbatim>\<open>if (day == 0) day = 7;\<close>
  The sum is \<^verbatim>\<open>int32_t\<close> arithmetic on non-negative numbers; \<^verbatim>\<open>day\<close> is a \<^verbatim>\<open>uint8_t\<close>.
\<close>

definition day_of_week :: "int \<Rightarrow> int \<Rightarrow> 8 word \<Rightarrow> error + 8 word" where
  "day_of_week currYear month date =
     (case table_read dow (month - 1) of
        Inl e \<Rightarrow> Inl e
      | Inr t \<Rightarrow>
          let currYear = currYear - (if month < 3 then 1 else 0);
              day = (word_of_int
                       ((currYear + currYear div 4 - currYear div 100 + currYear div 400
                         + uint t + uint date) mod 7) :: 8 word)
          in Inr (if day = 0 then 7 else day))"

text \<open>
  \<^verbatim>\<open>void DS3231_ToDateTime(uint32_t *unixtime, DS3231_DateTime *dt)\<close>.
  The second argument is the structure \<^verbatim>\<open>*dt\<close> before the call, the result the structure
  after it (the source stores seven fields and leaves \<^verbatim>\<open>Enable\<close> alone), or the
  out-of-range table read the call runs into. The division and remainder by
  \<^verbatim>\<open>24 * 60 * 60\<close> are unsigned 32-bit; everything after is \<^verbatim>\<open>int32_t\<close> arithmetic on
  small non-negative numbers.
\<close>

definition DS3231_ToDateTime :: "32 word \<Rightarrow> DS3231_DateTime \<Rightarrow> error + DS3231_DateTime" where
  "DS3231_ToDateTime unixtime dt =
     (let daysTillNow = uint (unixtime div 86400);
          extraTime = uint (unixtime mod 86400);
          (currYear, daysTillNow) = year_loop 1970 daysTillNow;
          extraDays = daysTillNow + 1;
          flag = is_leap_year currYear
      in case (if flag then month_loop_leap 0 0 extraDays
               else month_loop_common 0 0 extraDays) of
           Inl e \<Rightarrow> Inl e
         | Inr (month, extraDays) \<Rightarrow>
             (case current_month flag month extraDays of
                Inl e \<Rightarrow> Inl e
              | Inr (month, date) \<Rightarrow>
                  (case day_of_week currYear month date of
                     Inl e \<Rightarrow> Inl e
                   | Inr day \<Rightarrow>
                       Inr (dt\<lparr>Date := date,
                               Month := word_of_int month,
                               Year := word_of_int currYear,
                               Hour_24mode := word_of_int (extraTime div 3600),
                               Minute := word_of_int ((extraTime mod 3600) div 60),
                               Second := word_of_int ((extraTime mod 3600) mod 60),
                               Day := day\<rparr>))))"

section \<open>Calendar notions used in the statements\<close>

text \<open>
  The weekday formula as the specification words it: the year is lowered by one for
  January and February, \<open>T\<close> is the table \<open>{0,3,2,5,0,3,5,1,4,6,2,4}\<close> for the months
  1 to 12, and a result of 0 stands for 7 (Sunday).
\<close>

definition spec_weekday :: "int \<Rightarrow> int \<Rightarrow> int \<Rightarrow> int" where
  "spec_weekday year month day =
     (let y = (if month < 3 then year - 1 else year);
          w = (y + y div 4 - y div 100 + y div 400
               + [0, 3, 2, 5, 0, 3, 5, 1, 4, 6, 2, 4] ! nat (month - 1) + day) mod 7
      in if w = 0 then 7 else w)"

text \<open>
  The two month loops as one function of the leap flag, and the loop followed by the
  \<^verbatim>\<open>// Current Month\<close> block: the way \<^verbatim>\<open>DS3231_ToDateTime\<close> composes them.
\<close>

definition month_loop :: "bool \<Rightarrow> int \<Rightarrow> int \<Rightarrow> int \<Rightarrow> error + (int \<times> int)" where
  "month_loop flag index month extraDays =
     (if flag then month_loop_leap index month extraDays
      else month_loop_common index month extraDays)"

definition month_and_date :: "bool \<Rightarrow> int \<Rightarrow> error + (int \<times> 8 word)" where
  "month_and_date flag extraDays =
     (case month_loop flag 0 0 extraDays of
        Inl e \<Rightarrow> Inl e
      | Inr (month, extraDays) \<Rightarrow> current_month flag month extraDays)"

text \<open>
  The length of the month with table index \<open>k\<close> (0 for January), the number of days of
  a year before that month, the length of a year, and the number of days of \<open>n\<close> years
  from year \<open>y\<close> on.
\<close>

definition month_len :: "bool \<Rightarrow> nat \<Rightarrow> int" where
  "month_len leap k = (if leap \<and> k = 1 then 29 else uint (days_in_month ! k))"

fun days_before :: "bool \<Rightarrow> nat \<Rightarrow> int" where
  "days_before leap 0 = 0"
| "days_before leap (Suc k) = days_before leap k + month_len leap k"

definition year_len :: "int \<Rightarrow> int" where
  "year_len y = (if is_leap_year y then 366 else 365)"

fun years_days :: "int \<Rightarrow> nat \<Rightarrow> int" where
  "years_days y 0 = 0"
| "years_days y (Suc n) = year_len y + years_days (y + 1) n"

text \<open>
  A structure that holds a calendar date and a time of day: month 1 to 12, day 1 up to
  the length of that month in that year, hour up to 23, minute and second up to 59,
  weekday 1 to 7.
\<close>

definition valid_DateTime :: "DS3231_DateTime \<Rightarrow> bool" where
  "valid_DateTime dt =
     (1 \<le> Month dt \<and> Month dt \<le> 12 \<and> 1 \<le> Date dt
      \<and> uint (Date dt) \<le> month_len (is_leap_year (uint (Year dt))) (nat (uint (Month dt) - 1))
      \<and> Hour_24mode dt \<le> 23 \<and> Minute dt \<le> 59 \<and> Second dt \<le> 59
      \<and> 1 \<le> Day dt \<and> Day dt \<le> 7)"

text \<open>
  The calendar-to-epoch direction as the specification words it. \<open>spec_days_in_month\<close> is
  the month-length rule of its data model (February has 29 days when the year is divisible
  by 4), and \<open>valid_BrokenDownTime\<close> the legal ranges of a broken-down time with its year
  in 2000 to 2099.
\<close>

definition spec_days_in_month :: "int \<Rightarrow> int \<Rightarrow> int" where
  "spec_days_in_month m y =
     (if m = 2 \<and> y mod 4 = 0 then 29
      else [31, 28, 31, 30, 31, 30, 31, 31, 30, 31, 30, 31] ! nat (m - 1))"

definition valid_BrokenDownTime :: "DS3231_DateTime \<Rightarrow> bool" where
  "valid_BrokenDownTime t =
     (2000 \<le> Year t \<and> Year t \<le> 2099 \<and> 1 \<le> Month t \<and> Month t \<le> 12 \<and> 1 \<le> Date t
      \<and> uint (Date t) \<le> spec_days_in_month (uint (Month t)) (uint (Year t))
      \<and> Hour_24mode t \<le> 23 \<and> Minute t \<le> 59 \<and> Second t \<le> 59)"

text \<open>
  Steps 2 to 6 of the specification: \<open>y = year - 2000\<close>, the cumulative non-leap month
  table up to the month, \<open>day_of_month - 1\<close>, one more day after February of a leap year,
  and \<open>365*y + floor((y+3)/4)\<close> for the years before. Step 7 turns the day count and the
  time of day into seconds.
\<close>

definition spec_total_days :: "int \<Rightarrow> int \<Rightarrow> int \<Rightarrow> int" where
  "spec_total_days year month day_of_month =
     (let y = year - 2000
      in sum_list (take (nat (month - 1)) [31, 28, 31, 30, 31, 30, 31, 31, 30, 31, 30, 31])
         + (day_of_month - 1)
         + (if month > 2 \<and> y mod 4 = 0 then 1 else 0)
         + (365 * y + (y + 3) div 4))"

definition spec_to_epoch :: "DS3231_DateTime \<Rightarrow> int" where
  "spec_to_epoch t =
     ((spec_total_days (uint (Year t)) (uint (Month t)) (uint (Date t)) * 24
       + uint (Hour_24mode t)) * 60 + uint (Minute t)) * 60 + uint (Second t)"

section \<open>Evaluations used below\<close>

lemma year_loop_1970_364: "year_loop 1970 364 = (1970, 364)"
  by code_simp

lemma year_loop_1970_10957: "year_loop 1970 10957 = (2000, 0)"
  by code_simp

lemma year_loop_1970_11322: "year_loop 1970 11322 = (2000, 365)"
  by code_simp

lemma year_loop_1970_20088: "year_loop 1970 20088 = (2024, 365)"
  by code_simp

lemma year_loop_1970_19722: "year_loop 1970 19722 = (2023, 364)"
  by code_simp

lemma month_loop_common_365: "month_loop_common 0 0 365 = Inl (IndexOutOfBounds 12)"
  by code_simp

lemma month_loop_leap_366: "month_loop_leap 0 0 366 = Inl (IndexOutOfBounds 12)"
  by code_simp

lemma month_loop_leap_1: "month_loop_leap 0 0 1 = Inr (0, 1)"
  by code_simp

lemma for_months_december: "for_months 1 12 30 = Inr 364"
  by code_simp

section \<open>BCD round trip\<close>

lemma bcd_roundtrip_upto_99:
  "\<forall>n \<in> set [0..<100]. DS3231_DecodeBCD (DS3231_EncodeBCD (of_nat n)) = of_nat n"
  unfolding DS3231_DecodeBCD_def DS3231_EncodeBCD_def
  by code_simp

text \<open>
  C10. Decoding the BCD encoding of a value between 0 and 99 gives the value back.
\<close>

theorem C10_bcd_roundtrip:
  "d \<le> 99 \<Longrightarrow> DS3231_DecodeBCD (DS3231_EncodeBCD d) = d"
proof -
  assume "d \<le> 99"
  then have "unat d < 100"
    by (simp add: word_le_nat_alt)
  then have "unat d \<in> set [0..<100]"
    by simp
  with bcd_roundtrip_upto_99
  have "DS3231_DecodeBCD (DS3231_EncodeBCD (of_nat (unat d))) = of_nat (unat d)"
    by blast
  then show ?thesis
    by simp
qed

theorem C10_bcd_roundtrip_witness:
  "(59 :: 8 word) \<le> 99 \<and> DS3231_EncodeBCD 59 = 0x59 \<and> DS3231_DecodeBCD (DS3231_EncodeBCD 59) = 59"
proof -
  have h: "(59 :: 8 word) \<le> 99"
    by simp
  have e: "DS3231_EncodeBCD 59 = 0x59"
    by (simp add: DS3231_EncodeBCD_def)
  show ?thesis
    using h e C10_bcd_roundtrip [OF h] by simp
qed

section \<open>The legality checks of DS3231\_SetDateTime\<close>

lemma at_least_1_or_at_most: "(1 :: 8 word) \<le> x \<or> x \<le> numeral k"
  by (cases "x = 0") (simp_all add: word_le_nat_alt unat_gt_0 Suc_le_eq)

lemma SetDateTime_buffer_filled:
  "DS3231_SetDateTime_buffer dt =
     Inr [DS3231_EncodeBCD (Second dt), DS3231_EncodeBCD (Minute dt),
          DS3231_EncodeBCD (Hour_24mode dt), DS3231_EncodeBCD (Day dt),
          DS3231_EncodeBCD (Date dt), DS3231_EncodeBCD (Month dt),
          DS3231_EncodeBCD (ucast ((ucast (Year dt) :: 32 word) - 2000))]"
  unfolding DS3231_SetDateTime_buffer_def Let_def
  using at_least_1_or_at_most [of "Day dt"] at_least_1_or_at_most [of "Date dt"]
    at_least_1_or_at_most [of "Month dt"]
  by simp

text \<open>
  C9. Each of the seven checks is a disjunction that every field value satisfies, so the
  checks never take the \<^verbatim>\<open>HAL_ERROR\<close> branch: for every input structure the first half
  of \<^verbatim>\<open>DS3231_SetDateTime\<close> ends with the seven encoded bytes in the buffer.
\<close>

theorem C9_checks_never_reject:
  "DS3231_SetDateTime_buffer dt =
     Inr [DS3231_EncodeBCD (Second dt), DS3231_EncodeBCD (Minute dt),
          DS3231_EncodeBCD (Hour_24mode dt), DS3231_EncodeBCD (Day dt),
          DS3231_EncodeBCD (Date dt), DS3231_EncodeBCD (Month dt),
          DS3231_EncodeBCD (ucast ((ucast (Year dt) :: 32 word) - 2000))]"
  by (rule SetDateTime_buffer_filled)

text \<open>
  An instance with every field out of its range: weekday 0, day 99, month 200, year 7,
  25:61:99. The buffer is still filled.
\<close>

theorem C9_checks_never_reject_witness:
  "DS3231_SetDateTime_buffer
     \<lparr>Day = 0, Date = 99, Month = 200, Year = 7, Hour_24mode = 25, Minute = 61, Second = 99,
      Enable = DS3231_ENABLED\<rparr> \<noteq> Inl HAL_ERROR"
  using C9_checks_never_reject
    [of "\<lparr>Day = 0, Date = 99, Month = 200, Year = 7, Hour_24mode = 25, Minute = 61,
          Second = 99, Enable = DS3231_ENABLED\<rparr>"]
  by simp

text \<open>
  With a bus whose accessors succeed, the whole function therefore reports \<^verbatim>\<open>HAL_OK\<close>
  whatever the structure holds.
\<close>

lemma SetDateTime_accepts_everything:
  "fst (DS3231_SetDateTime (\<lambda>reg data bus. (HAL_OK, bus)) (\<lambda>reg bus. ((HAL_OK, 0), bus))
          (\<lambda>reg byte bus. (HAL_OK, bus)) dt bus) = HAL_OK"
  by (simp add: DS3231_SetDateTime_def SetDateTime_buffer_filled Let_def)

section \<open>Years before 2000 in DS3231\_ToUnixTime\<close>

text \<open>
  C5 (as amended). For a year before 2000 \<^verbatim>\<open>DS3231_ToUnixTime\<close> returns without storing:
  \<^verbatim>\<open>*unixtime\<close> keeps the value it had, and the call reports nothing.
\<close>

theorem C5_before_2000_unchanged:
  "Year dt < 2000 \<Longrightarrow> DS3231_ToUnixTime dt unixtime = Inr unixtime"
proof -
  assume "Year dt < 2000"
  then have "\<not> 2000 \<le> Year dt"
    by (simp add: not_le)
  then show ?thesis
    by (simp add: DS3231_ToUnixTime_def Let_def)
qed

theorem C5_before_2000_unchanged_witness:
  "(1999 :: 16 word) < 2000 \<and>
   DS3231_ToUnixTime
     \<lparr>Day = 5, Date = 31, Month = 12, Year = 1999, Hour_24mode = 23, Minute = 59, Second = 59,
      Enable = DS3231_ENABLED\<rparr> 42 = Inr 42"
proof -
  have h: "Year \<lparr>Day = 5, Date = 31, Month = 12, Year = 1999, Hour_24mode = 23, Minute = 59,
                 Second = 59, Enable = DS3231_ENABLED\<rparr> < 2000"
    by simp
  show ?thesis
    using C5_before_2000_unchanged [OF h, of 42] by simp
qed

text \<open>
  The claim as stated fails: the call for 1999-12-31 returns normally, and what the caller
  finds in \<^verbatim>\<open>*unixtime\<close> afterwards is what a successful call for 2000-01-01T00:00:00
  leaves there, so no failure is signalled.
\<close>

theorem C5_no_error_signalled_counterexample:
  "DS3231_ToUnixTime
     \<lparr>Day = 5, Date = 31, Month = 12, Year = 1999, Hour_24mode = 23, Minute = 59, Second = 59,
      Enable = DS3231_ENABLED\<rparr> 946684800 = Inr 946684800 \<and>
   DS3231_ToUnixTime
     \<lparr>Day = 6, Date = 1, Month = 1, Year = 2000, Hour_24mode = 0, Minute = 0, Second = 0,
      Enable = DS3231_ENABLED\<rparr> 946684800 = Inr 946684800"
  by (simp add: DS3231_ToUnixTime_def Let_def for_months.simps)

section \<open>The fixed point 2000-01-01\<close>

text \<open>
  C6. The second count 946684800 converts to 2000-01-01T00:00:00 with weekday 6
  (Saturday); the \<^verbatim>\<open>Enable\<close> field of the structure is not written.
\<close>

theorem C6_fixed_point_2000:
  "DS3231_ToDateTime 946684800 dt =
     Inr (dt\<lparr>Date := 1, Month := 1, Year := 2000, Hour_24mode := 0, Minute := 0, Second := 0,
             Day := 6\<rparr>)"
  unfolding DS3231_ToDateTime_def
  by (simp add: year_loop_1970_10957 month_loop_leap_1 is_leap_year_def current_month_def
      day_of_week_def table_read_def dow_def Let_def)

theorem C6_fixed_point_2000_witness:
  "DS3231_ToDateTime 946684800
     \<lparr>Day = 0, Date = 0, Month = 0, Year = 0, Hour_24mode = 0, Minute = 0, Second = 0,
      Enable = DS3231_DISABLED\<rparr> =
   Inr \<lparr>Day = 6, Date = 1, Month = 1, Year = 2000, Hour_24mode = 0, Minute = 0, Second = 0,
        Enable = DS3231_DISABLED\<rparr>"
  using C6_fixed_point_2000
    [of "\<lparr>Day = 0, Date = 0, Month = 0, Year = 0, Hour_24mode = 0, Minute = 0, Second = 0,
          Enable = DS3231_DISABLED\<rparr>"]
  by simp

section \<open>The weekday formula\<close>

lemma year_loop_bounds:
  "year_loop y d = (y', d') \<Longrightarrow> 0 \<le> d \<Longrightarrow> y \<le> y' \<and> y' \<le> y + d \<and> 0 \<le> d'"
proof (induction y d rule: year_loop.induct)
  case (1 currYear daysTillNow)
  show ?case
    using "1.prems" "1.IH"
    by (subst (asm) year_loop.simps) (auto split: if_splits)
qed

lemma uint_div_86400: "uint ((u :: 32 word) div 86400) < 49711"
proof -
  have "uint u < 2 ^ 32" using uint_bounded [of u] by simp
  then show "uint (u div 86400) < 49711" by (simp add: uint_div)
qed

lemma month_1_to_12:
  "(1 :: int) \<le> m \<Longrightarrow> m \<le> 12 \<Longrightarrow>
     m = 1 \<or> m = 2 \<or> m = 3 \<or> m = 4 \<or> m = 5 \<or> m = 6 \<or> m = 7 \<or> m = 8 \<or> m = 9 \<or> m = 10
     \<or> m = 11 \<or> m = 12"
  by arith

lemma table_read_dow:
  assumes a: "table_read dow (month - 1) = Inr t"
  shows "1 \<le> month" "month \<le> 12" "uint t = [0, 3, 2, 5, 0, 3, 5, 1, 4, 6, 2, 4] ! nat (month - 1)"
proof -
  from a show r: "1 \<le> month" "month \<le> 12"
    by (auto simp: table_read_def dow_def split: if_splits)
  from month_1_to_12 [OF r] a
  show "uint t = [0, 3, 2, 5, 0, 3, 5, 1, 4, 6, 2, 4] ! nat (month - 1)"
    by (elim disjE) (auto simp: table_read_def dow_def)
qed

lemma ToDateTime_Inr_fields:
  assumes "DS3231_ToDateTime unixtime dt = Inr dt'"
  obtains currYear daysTillNow m extraDays month date day where
    "year_loop 1970 (uint (unixtime div 86400)) = (currYear, daysTillNow)"
    "(if is_leap_year currYear then month_loop_leap 0 0 (daysTillNow + 1)
      else month_loop_common 0 0 (daysTillNow + 1)) = Inr (m, extraDays)"
    "current_month (is_leap_year currYear) m extraDays = Inr (month, date)"
    "day_of_week currYear month date = Inr day"
    "dt' = dt\<lparr>Date := date, Month := word_of_int month, Year := word_of_int currYear,
               Hour_24mode := word_of_int (uint (unixtime mod 86400) div 3600),
               Minute := word_of_int ((uint (unixtime mod 86400) mod 3600) div 60),
               Second := word_of_int ((uint (unixtime mod 86400) mod 3600) mod 60),
               Day := day\<rparr>"
proof -
  obtain cy dn where yl: "year_loop 1970 (uint (unixtime div 86400)) = (cy, dn)"
    by (cases "year_loop 1970 (uint (unixtime div 86400))")
  from assms yl show thesis
    unfolding DS3231_ToDateTime_def Let_def
    by (simp split: sum.splits prod.splits) (rule that [OF yl], assumption+, erule sym)
qed

lemma uint_word8_small: "0 \<le> k \<Longrightarrow> k < 256 \<Longrightarrow> uint (word_of_int k :: 8 word) = k"
  by (simp add: uint_word_of_int take_bit_eq_mod)

lemma uint_word16_small: "0 \<le> k \<Longrightarrow> k < 65536 \<Longrightarrow> uint (word_of_int k :: 16 word) = k"
  by (simp add: uint_word_of_int take_bit_eq_mod)

lemma day_of_week_spec:
  assumes "day_of_week currYear month date = Inr day"
  shows "uint day = spec_weekday currYear month (uint date)" "1 \<le> month" "month \<le> 12"
proof -
  from assms obtain t where t: "table_read dow (month - 1) = Inr t"
    by (cases "table_read dow (month - 1)") (simp_all add: day_of_week_def)
  from table_read_dow [OF t] show "1 \<le> month" "month \<le> 12"
    by simp_all
  define y where "y = currYear - (if month < 3 then 1 else 0)"
  define X where "X = y + y div 4 - y div 100 + y div 400 + uint t + uint date"
  have "Inr (if (word_of_int (X mod 7) :: 8 word) = 0 then 7 else word_of_int (X mod 7))
          = (Inr day :: error + 8 word)"
    using assms
    unfolding day_of_week_def t sum.case Let_def y_def [symmetric] X_def [symmetric] .
  then have day: "day = (if (word_of_int (X mod 7) :: 8 word) = 0 then 7 else word_of_int (X mod 7))"
    by (simp only: sum.inject)
  have "0 \<le> X mod 7" "X mod 7 < 7"
    by simp_all
  then have w: "uint (word_of_int (X mod 7) :: 8 word) = X mod 7"
    by (intro uint_word8_small) simp_all
  have z: "((word_of_int (X mod 7) :: 8 word) = 0) = (X mod 7 = 0)"
  proof
    assume "(word_of_int (X mod 7) :: 8 word) = 0"
    then have "uint (word_of_int (X mod 7) :: 8 word) = 0"
      by simp
    with w show "X mod 7 = 0"
      by simp
  next
    assume "X mod 7 = 0"
    then show "(word_of_int (X mod 7) :: 8 word) = 0"
      by simp
  qed
  have y': "y = (if month < 3 then currYear - 1 else currYear)"
    by (simp add: y_def)
  have s: "spec_weekday currYear month (uint date) = (if X mod 7 = 0 then 7 else X mod 7)"
    unfolding spec_weekday_def Let_def y' [symmetric] table_read_dow(3) [OF t, symmetric]
      X_def [symmetric]
    by (rule refl)
  show "uint day = spec_weekday currYear month (uint date)"
    unfolding s day z using w by simp
qed

lemma ToDateTime_weekday: "DS3231_ToDateTime unixtime dt = Inr dt' \<Longrightarrow>
   uint (Day dt') = spec_weekday (uint (Year dt')) (uint (Month dt')) (uint (Date dt'))"
proof -
  assume a: "DS3231_ToDateTime unixtime dt = Inr dt'"
  then obtain currYear daysTillNow m extraDays month date day where f:
    "year_loop 1970 (uint (unixtime div 86400)) = (currYear, daysTillNow)"
    "day_of_week currYear month date = Inr day"
    "dt' = dt\<lparr>Date := date, Month := word_of_int month, Year := word_of_int currYear,
               Hour_24mode := word_of_int (uint (unixtime mod 86400) div 3600),
               Minute := word_of_int ((uint (unixtime mod 86400) mod 3600) div 60),
               Second := word_of_int ((uint (unixtime mod 86400) mod 3600) mod 60),
               Day := day\<rparr>"
    by (rule ToDateTime_Inr_fields)
  from year_loop_bounds [OF f(1)] uint_div_86400 [of unixtime]
  have b: "0 \<le> currYear" "currYear < 65536" by auto
  note d = day_of_week_spec [OF f(2)]
  have "uint (Year dt') = currYear"
    using b by (simp add: f(3) uint_word16_small)
  moreover have "uint (Month dt') = month"
    using d(2,3) by (simp add: f(3) uint_word8_small)
  moreover have "Date dt' = date" "Day dt' = day"
    by (simp_all add: f(3))
  ultimately show ?thesis
    using d(1) by simp
qed

section \<open>The month loops\<close>

lemma nat_below_12:
  "k < 12 \<Longrightarrow> k = 0 \<or> k = 1 \<or> k = 2 \<or> k = 3 \<or> k = 4 \<or> k = 5 \<or> k = 6 \<or> k = 7 \<or> k = 8 \<or> k = 9
     \<or> k = 10 \<or> k = (11 :: nat)"
  by arith

lemma table_read_days_in_month:
  "k < 12 \<Longrightarrow> table_read days_in_month (int k) = Inr (days_in_month ! k)"
  by (simp add: table_read_def days_in_month_def)

lemma month_len_pos: "k < 12 \<Longrightarrow> 28 \<le> month_len leap k \<and> month_len leap k \<le> 31"
  by (drule nat_below_12) (auto simp: month_len_def days_in_month_def)

lemma month_loop_step:
  assumes "k < 12"
  shows "month_loop flag (int k) m E =
           (if E - month_len flag k < 0 then Inr (m, E)
            else month_loop flag (int k + 1) (m + 1) (E - month_len flag k))"
proof (cases flag)
  case True
  show ?thesis
  proof (cases "k = 1")
    case True
    with \<open>flag\<close> show ?thesis
      by (simp add: month_loop_def month_len_def month_loop_leap.simps [of 1])
  next
    case False
    with \<open>flag\<close> assms show ?thesis
      by (simp add: month_loop_def month_len_def month_loop_leap.simps [of "int k"]
          table_read_days_in_month)
  qed
next
  case False
  with assms show ?thesis
    by (simp add: month_loop_def month_len_def month_loop_common.simps [of "int k"]
        table_read_days_in_month)
qed

lemma month_loop_12: "month_loop flag 12 m E = Inl (IndexOutOfBounds 12)"
  by (simp add: month_loop_def month_loop_leap.simps [of 12] month_loop_common.simps [of 12]
      table_read_def days_in_month_def)

lemma days_before_mono: "k + n \<le> 12 \<Longrightarrow> days_before f k \<le> days_before f (k + n)"
proof (induction n)
  case 0
  then show ?case by simp
next
  case (Suc n)
  then have "k + n < 12" by simp
  from month_len_pos [OF this, of f] Suc show ?case by simp
qed

lemma month_loop_found:
  "k + n < 12 \<Longrightarrow> days_before f (k + n) - days_before f k \<le> E \<Longrightarrow>
   E < days_before f (Suc (k + n)) - days_before f k \<Longrightarrow>
   month_loop f (int k) m E = Inr (m + int n, E - (days_before f (k + n) - days_before f k))"
proof (induction n arbitrary: k m E)
  case 0
  then show ?case
    by (simp add: month_loop_step)
next
  case (Suc n)
  have k: "k < 12" "Suc k + n < 12"
    using Suc.prems(1) by simp_all
  have "days_before f (Suc k) \<le> days_before f (Suc k + n)"
    using k by (intro days_before_mono) simp
  then have ge: "month_len f k \<le> E"
    using Suc.prems(2) by simp
  have "month_loop f (int (Suc k)) (m + 1) (E - month_len f k) =
          Inr (m + 1 + int n,
               E - month_len f k - (days_before f (Suc k + n) - days_before f (Suc k)))"
    using Suc.prems(2,3) by (intro Suc.IH k) simp_all
  then show ?case
    using ge k by (simp add: month_loop_step add.commute)
qed

lemma month_loop_exhausted:
  "k + n = 12 \<Longrightarrow> days_before f (k + n) - days_before f k \<le> E \<Longrightarrow>
   month_loop f (int k) m E = Inl (IndexOutOfBounds 12)"
proof (induction n arbitrary: k m E)
  case 0
  then show ?case
    by (simp add: month_loop_12)
next
  case (Suc n)
  have k: "k < 12" "Suc k + n = 12"
    using Suc.prems(1) by simp_all
  have "days_before f (Suc k) \<le> days_before f (Suc k + n)"
    using k by (intro days_before_mono) simp
  then have ge: "month_len f k \<le> E"
    using Suc.prems(2) by simp
  have "month_loop f (int (Suc k)) (m + 1) (E - month_len f k) = Inl (IndexOutOfBounds 12)"
    using Suc.prems(2) by (intro Suc.IH k) simp
  then show ?case
    using ge k by (simp add: month_loop_step add.commute)
qed

lemma days_before_search:
  "0 \<le> E \<Longrightarrow> E < days_before f n \<Longrightarrow>
     \<exists>j<n. days_before f j \<le> E \<and> E < days_before f (Suc j)"
proof (induction n)
  case 0
  then show ?case by simp
next
  case (Suc n)
  show ?case
  proof (cases "E < days_before f n")
    case True
    with Suc obtain j where "j < n" "days_before f j \<le> E \<and> E < days_before f (Suc j)"
      by blast
    then show ?thesis
      using less_Suc_eq by blast
  next
    case False
    with Suc.prems show ?thesis
      by (intro exI [of _ n]) simp
  qed
qed

lemma days_before_True_12: "days_before True 12 = 366"
  by code_simp

lemma days_before_False_12: "days_before False 12 = 365"
  by code_simp

lemma days_before_12: "days_before leap 12 = (if leap then 366 else 365)"
  by (cases leap) (simp_all only: days_before_True_12 days_before_False_12 if_True if_False)

lemma month_and_date_inside:
  assumes i: "i < 12" and d: "1 \<le> d" "d < month_len f i"
  shows "month_and_date f (days_before f i + d) = Inr (int i + 1, word_of_int d)"
proof -
  have "month_loop f (int 0) 0 (days_before f i + d)
          = Inr (0 + int i, days_before f i + d - (days_before f (0 + i) - days_before f 0))"
    using i d by (intro month_loop_found) simp_all
  then have "month_loop f 0 0 (days_before f i + d) = Inr (int i, d)"
    by simp
  then show ?thesis
    using d by (simp add: month_and_date_def current_month_def)
qed

lemma month_and_date_last:
  assumes i: "i < 11"
  shows "month_and_date f (days_before f i + month_len f i)
           = Inr (int i + 1, word_of_int (month_len f i))"
proof -
  have i': "Suc i < 12" "i < 12"
    using i by simp_all
  have "month_loop f (int 0) 0 (days_before f (Suc i))
          = Inr (0 + int (Suc i),
                 days_before f (Suc i) - (days_before f (0 + Suc i) - days_before f 0))"
    using i' month_len_pos [OF i'(1), of f] by (intro month_loop_found) simp_all
  then have l: "month_loop f 0 0 (days_before f i + month_len f i) = Inr (int i + 1, 0)"
    by (simp add: add.commute)
  show ?thesis
  proof (cases "f \<and> i = 1")
    case True
    then have "current_month f (int i + 1) 0 = Inr (int i + 1, word_of_int (month_len f i))"
      by (simp add: current_month_def month_len_def)
    then show ?thesis
      unfolding month_and_date_def l by simp
  next
    case False
    then have "\<not> (int i + 1 = 2 \<and> f)"
      by auto
    with False i' have "current_month f (int i + 1) 0 = Inr (int i + 1, word_of_int (month_len f i))"
      by (auto simp: current_month_def month_len_def table_read_days_in_month)
    then show ?thesis
      unfolding month_and_date_def l by simp
  qed
qed

lemma month_and_date_found:
  assumes "i < 12" "1 \<le> d" "d \<le> month_len f i" "\<not> (i = 11 \<and> d = 31)"
  shows "month_and_date f (days_before f i + d) = Inr (int i + 1, word_of_int d)"
proof (cases "d < month_len f i")
  case True
  with assms show ?thesis
    by (intro month_and_date_inside)
next
  case False
  with assms have e: "d = month_len f i"
    by simp
  have "month_len f 11 = 31"
    by (simp add: month_len_def days_in_month_def)
  with e assms have "i < 11"
    by (cases "i = 11") auto
  then show ?thesis
    unfolding e by (rule month_and_date_last)
qed

lemma month_and_date_exhausted:
  "days_before f 12 \<le> E \<Longrightarrow> month_and_date f E = Inl (IndexOutOfBounds 12)"
proof -
  assume "days_before f 12 \<le> E"
  then have "month_loop f (int 0) 0 E = Inl (IndexOutOfBounds 12)"
    by (intro month_loop_exhausted [of 0 12]) simp_all
  then show ?thesis
    by (simp add: month_and_date_def)
qed

lemma day_of_year_split:
  assumes "1 \<le> E" "E \<le> days_before f 12"
  obtains i d where "i < 12" "1 \<le> d" "d \<le> month_len f i" "E = days_before f i + d"
proof -
  from assms have "0 \<le> E - 1" "E - 1 < days_before f 12"
    by simp_all
  from days_before_search [OF this]
  obtain j where j: "j < 12" "days_before f j \<le> E - 1" "E - 1 < days_before f (Suc j)"
    by blast
  show thesis
  proof (rule that [of j "E - days_before f j"])
    show "j < 12" by (rule j)
    show "1 \<le> E - days_before f j" using j by simp
    show "E - days_before f j \<le> month_len f j" using j by simp
    show "E = days_before f j + (E - days_before f j)" by simp
  qed
qed

lemma month_len_11: "month_len f 11 = 31"
  by (simp add: month_len_def days_in_month_def)

lemma days_before_11_31: "days_before f 11 + 31 = days_before f 12"
proof -
  have "days_before f (Suc 11) = days_before f 11 + month_len f 11"
    by (rule days_before.simps)
  then show ?thesis
    by (simp add: month_len_11)
qed

section \<open>The year loop\<close>

lemma year_loop_step:
  "year_loop y d = (if d < year_len y then (y, d) else year_loop (y + 1) (d - year_len y))"
  by (subst year_loop.simps) (simp add: year_len_def)

lemma years_days_nonneg: "0 \<le> years_days y n"
  by (induction n arbitrary: y) (simp_all add: year_len_def)

lemma year_loop_found:
  "0 \<le> d \<Longrightarrow> d < year_len (y + int n) \<Longrightarrow> year_loop y (years_days y n + d) = (y + int n, d)"
proof (induction n arbitrary: y)
  case 0
  then show ?case
    by (simp add: year_loop_step)
next
  case (Suc n)
  have "year_loop (y + 1) (years_days (y + 1) n + d) = (y + 1 + int n, d)"
    using Suc.prems by (intro Suc.IH) (simp_all add: add.commute add.left_commute)
  moreover have "\<not> year_len y + years_days (y + 1) n + d < year_len y"
    using years_days_nonneg [of "y + 1" n] Suc.prems(1) by simp
  ultimately show ?case
    by (simp add: year_loop_step [of y] add.commute add.left_commute)
qed

lemma year_loop_spec:
  "year_loop y D = (y', d') \<Longrightarrow> 0 \<le> D \<Longrightarrow>
     \<exists>n. y' = y + int n \<and> D = years_days y n + d' \<and> 0 \<le> d' \<and> d' < year_len y'"
proof (induction y D rule: year_loop.induct)
  case (1 currYear daysTillNow)
  show ?case
  proof (cases "daysTillNow < year_len currYear")
    case True
    with "1.prems" have "y' = currYear + int 0 \<and> daysTillNow = years_days currYear 0 + d'
        \<and> 0 \<le> d' \<and> d' < year_len y'"
      by (simp add: year_loop_step [of currYear])
    then show ?thesis
      by blast
  next
    case False
    with "1.prems" have r: "year_loop (currYear + 1) (daysTillNow - year_len currYear) = (y', d')"
      by (simp add: year_loop_step [of currYear])
    have "\<exists>n. y' = currYear + 1 + int n
            \<and> daysTillNow - year_len currYear = years_days (currYear + 1) n + d'
            \<and> 0 \<le> d' \<and> d' < year_len y'"
    proof (cases "is_leap_year currYear")
      case True
      then have l: "year_len currYear = 366"
        by (simp add: year_len_def)
      from False have "\<not> daysTillNow < 366" "0 \<le> daysTillNow - 366"
        by (simp_all add: l)
      from "1.IH"(1) [OF True this(1) r [unfolded l] this(2)] show ?thesis
        by (simp add: l)
    next
      case f: False
      then have l: "year_len currYear = 365"
        by (simp add: year_len_def)
      from False have "\<not> daysTillNow < 365" "0 \<le> daysTillNow - 365"
        by (simp_all add: l)
      from "1.IH"(2) [OF f this(1) r [unfolded l] this(2)] show ?thesis
        by (simp add: l)
    qed
    then obtain n where "y' = currYear + 1 + int n"
      "daysTillNow - year_len currYear = years_days (currYear + 1) n + d'"
      "0 \<le> d'" "d' < year_len y'"
      by blast
    then have "y' = currYear + int (Suc n) \<and> daysTillNow = years_days currYear (Suc n) + d'
        \<and> 0 \<le> d' \<and> d' < year_len y'"
      by simp
    then show ?thesis
      by blast
  qed
qed

lemma year_len_days_before: "days_before (is_leap_year y) 12 = year_len y"
  by (simp add: days_before_12 year_len_def)

lemma ToDateTime_unfold:
  assumes "year_loop 1970 (uint (unixtime div 86400)) = (currYear, daysTillNow)"
  shows "DS3231_ToDateTime unixtime dt =
     (case month_and_date (is_leap_year currYear) (daysTillNow + 1) of
        Inl e \<Rightarrow> Inl e
      | Inr (month, date) \<Rightarrow>
          (case day_of_week currYear month date of
             Inl e \<Rightarrow> Inl e
           | Inr day \<Rightarrow>
               Inr (dt\<lparr>Date := date,
                       Month := word_of_int month,
                       Year := word_of_int currYear,
                       Hour_24mode := word_of_int (uint (unixtime mod 86400) div 3600),
                       Minute := word_of_int ((uint (unixtime mod 86400) mod 3600) div 60),
                       Second := word_of_int ((uint (unixtime mod 86400) mod 3600) mod 60),
                       Day := day\<rparr>)))"
  unfolding DS3231_ToDateTime_def Let_def assms month_and_date_def month_loop_def
  by (cases "is_leap_year currYear") (simp_all split: sum.splits prod.splits)

section \<open>What DS3231\_ToDateTime returns\<close>

lemma word8_of_int_bounds:
  "lo \<le> k \<Longrightarrow> k \<le> hi \<Longrightarrow> 0 \<le> lo \<Longrightarrow> hi < 256 \<Longrightarrow>
     word_of_int lo \<le> (word_of_int k :: 8 word) \<and> (word_of_int k :: 8 word) \<le> word_of_int hi"
  by (simp add: word_le_def uint_word8_small)

lemma spec_weekday_range: "1 \<le> spec_weekday y m d \<and> spec_weekday y m d \<le> 7"
proof -
  have "0 \<le> X mod 7 \<and> X mod 7 < 7" for X :: int
    by simp
  then show ?thesis
    unfolding spec_weekday_def Let_def
    by (smt (verit))
qed

lemma day_of_week_total:
  assumes "1 \<le> month" "month \<le> 12"
  shows "day_of_week currYear month date
           = Inr (word_of_int (spec_weekday currYear month (uint date)))"
proof -
  from assms have "table_read dow (month - 1) = Inr (dow ! nat (month - 1))"
    by (simp add: table_read_def dow_def)
  then obtain day where d: "day_of_week currYear month date = Inr day"
    by (simp add: day_of_week_def Let_def)
  from day_of_week_spec(1) [OF d] have "word_of_int (uint day) = (word_of_int (spec_weekday currYear month (uint date)) :: 8 word)"
    by simp
  with d show ?thesis
    by simp
qed

lemma extraTime_fields:
  fixes unixtime :: "32 word"
  defines "extraTime \<equiv> uint (unixtime mod 86400)"
  shows "(word_of_int (extraTime div 3600) :: 8 word) \<le> 23"
    "(word_of_int ((extraTime mod 3600) div 60) :: 8 word) \<le> 59"
    "(word_of_int ((extraTime mod 3600) mod 60) :: 8 word) \<le> 59"
proof -
  have e: "0 \<le> extraTime" "extraTime < 86400"
    by (simp_all add: extraTime_def uint_mod)
  then have "0 \<le> extraTime div 3600" "extraTime div 3600 \<le> 23"
    by simp_all
  from word8_of_int_bounds [OF this(2) order_refl this(1)]
  show "(word_of_int (extraTime div 3600) :: 8 word) \<le> 23" by simp
  have "0 \<le> (extraTime mod 3600) div 60" "(extraTime mod 3600) div 60 \<le> 59"
    by simp_all
  from word8_of_int_bounds [OF this(2) order_refl this(1)]
  show "(word_of_int ((extraTime mod 3600) div 60) :: 8 word) \<le> 59" by simp
  have "0 \<le> (extraTime mod 3600) mod 60" "(extraTime mod 3600) mod 60 \<le> 59"
    by simp_all
  from word8_of_int_bounds [OF this(2) order_refl this(1)]
  show "(word_of_int ((extraTime mod 3600) mod 60) :: 8 word) \<le> 59" by simp
qed

lemma ToDateTime_result:
  assumes yl: "year_loop 1970 (uint (unixtime div 86400)) = (currYear, daysTillNow)"
    and s: "daysTillNow + 1 = days_before (is_leap_year currYear) i + d"
      "i < 12" "1 \<le> d" "d \<le> month_len (is_leap_year currYear) i" "\<not> (i = 11 \<and> d = 31)"
  shows "DS3231_ToDateTime unixtime dt =
           Inr (dt\<lparr>Date := word_of_int d,
                   Month := word_of_int (int i + 1),
                   Year := word_of_int currYear,
                   Hour_24mode := word_of_int (uint (unixtime mod 86400) div 3600),
                   Minute := word_of_int ((uint (unixtime mod 86400) mod 3600) div 60),
                   Second := word_of_int ((uint (unixtime mod 86400) mod 3600) mod 60),
                   Day := word_of_int (spec_weekday currYear (int i + 1) d)\<rparr>)"
proof -
  have md: "month_and_date (is_leap_year currYear) (daysTillNow + 1)
              = Inr (int i + 1, word_of_int d)"
    unfolding s(1) using s(2-5) by (rule month_and_date_found)
  have "d \<le> 31"
    using s(4) month_len_pos [OF s(2), of "is_leap_year currYear"] by simp
  then have ud: "uint (word_of_int d :: 8 word) = d"
    using s(3) by (simp add: uint_word8_small)
  have "day_of_week currYear (int i + 1) (word_of_int d)
          = Inr (word_of_int (spec_weekday currYear (int i + 1) d))"
    using s(2) by (simp add: day_of_week_total ud)
  then show ?thesis
    by (simp add: ToDateTime_unfold [OF yl] md)
qed

lemma ToDateTime_december_31:
  assumes yl: "year_loop 1970 (uint (unixtime div 86400)) = (currYear, daysTillNow)"
    and s: "daysTillNow + 1 = year_len currYear"
  shows "DS3231_ToDateTime unixtime dt = Inl (IndexOutOfBounds 12)"
proof -
  have "month_and_date (is_leap_year currYear) (daysTillNow + 1) = Inl (IndexOutOfBounds 12)"
    by (rule month_and_date_exhausted) (simp add: s year_len_days_before)
  then show ?thesis
    by (simp add: ToDateTime_unfold [OF yl])
qed

lemma years_days_lower: "365 * int n \<le> years_days y n"
  by (induction n arbitrary: y) (simp_all add: year_len_def add.commute algebra_simps, smt (verit))

lemma ToDateTime_cases:
  obtains (december_31) currYear daysTillNow where
      "year_loop 1970 (uint (unixtime div 86400)) = (currYear, daysTillNow)"
      "1970 \<le> currYear" "currYear \<le> 2106"
      "daysTillNow + 1 = year_len currYear"
      "DS3231_ToDateTime unixtime dt = Inl (IndexOutOfBounds 12)"
  | (date) currYear daysTillNow i d where
      "year_loop 1970 (uint (unixtime div 86400)) = (currYear, daysTillNow)"
      "1970 \<le> currYear" "currYear \<le> 2106"
      "daysTillNow + 1 = days_before (is_leap_year currYear) i + d"
      "i < 12" "1 \<le> d" "d \<le> month_len (is_leap_year currYear) i" "\<not> (i = 11 \<and> d = 31)"
      "DS3231_ToDateTime unixtime dt =
           Inr (dt\<lparr>Date := word_of_int d,
                   Month := word_of_int (int i + 1),
                   Year := word_of_int currYear,
                   Hour_24mode := word_of_int (uint (unixtime mod 86400) div 3600),
                   Minute := word_of_int ((uint (unixtime mod 86400) mod 3600) div 60),
                   Second := word_of_int ((uint (unixtime mod 86400) mod 3600) mod 60),
                   Day := word_of_int (spec_weekday currYear (int i + 1) d)\<rparr>)"
proof -
  obtain cy dn where yl: "year_loop 1970 (uint (unixtime div 86400)) = (cy, dn)"
    by (cases "year_loop 1970 (uint (unixtime div 86400))")
  from year_loop_spec [OF yl] obtain n where n: "cy = 1970 + int n"
    "uint (unixtime div 86400) = years_days 1970 n + dn" "0 \<le> dn" "dn < year_len cy"
    by auto
  have lo: "1970 \<le> cy"
    using n(1) by simp
  have hi: "cy \<le> 2106"
    using n(1,2,3) years_days_lower [of n 1970] uint_div_86400 [of unixtime] by simp
  from n(3,4) have "1 \<le> dn + 1" "dn + 1 \<le> days_before (is_leap_year cy) 12"
    by (simp_all add: year_len_days_before)
  then obtain i d where s: "i < 12" "1 \<le> d" "d \<le> month_len (is_leap_year cy) i"
    "dn + 1 = days_before (is_leap_year cy) i + d"
    by (rule day_of_year_split)
  show thesis
  proof (cases "i = 11 \<and> d = 31")
    case True
    with s(4) have e: "dn + 1 = year_len cy"
      by (simp add: days_before_11_31 year_len_days_before)
    show ?thesis
      by (rule december_31 [OF yl lo hi e ToDateTime_december_31 [OF yl e]])
  next
    case False
    show ?thesis
      by (rule date [OF yl lo hi s(4,1,2,3) False ToDateTime_result [OF yl s(4,1,2,3) False]])
  qed
qed

lemma word8_of_int_le:
  "0 \<le> k \<Longrightarrow> k \<le> hi \<Longrightarrow> hi < 256 \<Longrightarrow> uint (word_of_int k :: 8 word) \<le> hi"
  by (simp add: uint_word8_small)

lemma ToDateTime_valid:
  assumes "DS3231_ToDateTime unixtime dt = Inr dt'"
  shows "valid_DateTime dt'"
proof (cases rule: ToDateTime_cases [of unixtime dt])
  case (december_31 currYear daysTillNow)
  with assms show ?thesis
    by simp
next
  case (date currYear daysTillNow i d)
  let ?leap = "is_leap_year currYear"
  have d31: "d \<le> 31"
    using date(7) month_len_pos [OF date(5), of ?leap] by simp
  have ud: "uint (word_of_int d :: 8 word) = d"
    using date(6) d31 by (simp add: uint_word8_small)
  have um: "uint (word_of_int (int i + 1) :: 8 word) = int i + 1"
    by (rule uint_word8_small) (use date(5) in simp_all)
  then have um': "uint (word_of_nat i + 1 :: 8 word) = int i + 1"
    by simp
  have uy: "uint (word_of_int currYear :: 16 word) = currYear"
    using date(2,3) by (simp add: uint_word16_small)
  have w: "uint (word_of_int (spec_weekday currYear (int i + 1) d) :: 8 word)
             = spec_weekday currYear (int i + 1) d"
    using spec_weekday_range [of currYear "int i + 1" d] by (simp add: uint_word8_small)
  from assms date(9) have dt': "dt' = dt\<lparr>Date := word_of_int d,
                   Month := word_of_int (int i + 1),
                   Year := word_of_int currYear,
                   Hour_24mode := word_of_int (uint (unixtime mod 86400) div 3600),
                   Minute := word_of_int ((uint (unixtime mod 86400) mod 3600) div 60),
                   Second := word_of_int ((uint (unixtime mod 86400) mod 3600) mod 60),
                   Day := word_of_int (spec_weekday currYear (int i + 1) d)\<rparr>"
    by simp
  show ?thesis
    unfolding valid_DateTime_def dt'
    using date(5,6,7) spec_weekday_range [of currYear "int i + 1" d] extraTime_fields [of unixtime]
    by (simp add: word_le_def ud um' uy w)
qed

lemma no_february_29_in_common_year:
  assumes "DS3231_ToDateTime unixtime dt = Inr dt'" "\<not> is_leap_year (uint (Year dt'))"
    "Month dt' = 2"
  shows "Date dt' \<le> 28"
proof -
  from ToDateTime_valid [OF assms(1)]
  have "uint (Date dt') \<le> month_len (is_leap_year (uint (Year dt'))) (nat (uint (Month dt') - 1))"
    by (simp add: valid_DateTime_def)
  with assms(2,3) have "uint (Date dt') \<le> 28"
    by (simp add: month_len_def days_in_month_def)
  then show ?thesis
    by (simp add: word_le_def)
qed

lemma ToDateTime_error_iff:
  "(\<exists>e. DS3231_ToDateTime unixtime dt = Inl e) \<longleftrightarrow>
     (case year_loop 1970 (uint (unixtime div 86400)) of
        (currYear, daysTillNow) \<Rightarrow> daysTillNow + 1 = year_len currYear)"
proof (cases rule: ToDateTime_cases [of unixtime dt])
  case (december_31 currYear daysTillNow)
  then show ?thesis
    by simp
next
  case (date currYear daysTillNow i d)
  have "days_before (is_leap_year currYear) i + d < year_len currYear"
  proof (cases "i = 11")
    case True
    with date(7,8) have "d < 31"
      by (simp add: month_len_11)
    with True show ?thesis
      using days_before_11_31 [of "is_leap_year currYear"] by (simp add: year_len_days_before)
  next
    case False
    with date(5) have i: "Suc (Suc i) + (10 - i) \<le> 12" "Suc i < 12" by simp_all
    from days_before_mono [OF i(1), of "is_leap_year currYear"] False date(5)
    have "days_before (is_leap_year currYear) (Suc (Suc i))
            \<le> days_before (is_leap_year currYear) 12"
      by simp
    with date(7) month_len_pos [OF i(2), of "is_leap_year currYear"] show ?thesis
      by (simp add: year_len_days_before)
  qed
  with date(1,4,9) show ?thesis
    by simp
qed

section \<open>Dates used as examples\<close>

lemma year_loop_1970_19723: "year_loop 1970 19723 = (2024, 0)"
  by code_simp

lemma year_loop_1970_20082: "year_loop 1970 20082 = (2024, 359)"
  by code_simp

lemma year_loop_1970_11016: "year_loop 1970 11016 = (2000, 59)"
  by code_simp

lemma year_loop_1970_19782: "year_loop 1970 19782 = (2024, 59)"
  by code_simp

lemma year_loop_1970_11381: "year_loop 1970 11381 = (2001, 58)"
  by code_simp

lemma month_loop_leap_360: "month_loop_leap 0 0 360 = Inr (11, 25)"
  by code_simp

lemma month_loop_leap_60: "month_loop_leap 0 0 60 = Inr (2, 0)"
  by code_simp

lemma month_loop_common_59: "month_loop_common 0 0 59 = Inr (2, 0)"
  by code_simp

lemma for_months_february: "for_months 1 2 28 = Inr 59"
  by code_simp

lemma ToDateTime_2024_01_01:
  "DS3231_ToDateTime 1704067200 dt =
     Inr (dt\<lparr>Date := 1, Month := 1, Year := 2024, Hour_24mode := 0, Minute := 0, Second := 0,
             Day := 1\<rparr>)"
  unfolding DS3231_ToDateTime_def
  by (simp add: year_loop_1970_19723 month_loop_leap_1 is_leap_year_def current_month_def
      day_of_week_def table_read_def dow_def Let_def)

lemma ToDateTime_2024_12_25:
  "DS3231_ToDateTime 1735084800 dt =
     Inr (dt\<lparr>Date := 25, Month := 12, Year := 2024, Hour_24mode := 0, Minute := 0, Second := 0,
             Day := 3\<rparr>)"
  unfolding DS3231_ToDateTime_def
  by (simp add: year_loop_1970_20082 month_loop_leap_360 is_leap_year_def current_month_def
      day_of_week_def table_read_def dow_def Let_def)

lemma ToDateTime_2000_02_29:
  "DS3231_ToDateTime 951782400 dt =
     Inr (dt\<lparr>Date := 29, Month := 2, Year := 2000, Hour_24mode := 0, Minute := 0, Second := 0,
             Day := 2\<rparr>)"
  unfolding DS3231_ToDateTime_def
  by (simp add: year_loop_1970_11016 month_loop_leap_60 is_leap_year_def current_month_def
      day_of_week_def table_read_def dow_def Let_def)

lemma ToDateTime_2024_02_29:
  "DS3231_ToDateTime 1709164800 dt =
     Inr (dt\<lparr>Date := 29, Month := 2, Year := 2024, Hour_24mode := 0, Minute := 0, Second := 0,
             Day := 4\<rparr>)"
  unfolding DS3231_ToDateTime_def
  by (simp add: year_loop_1970_19782 month_loop_leap_60 is_leap_year_def current_month_def
      day_of_week_def table_read_def dow_def Let_def)

lemma ToDateTime_2001_02_28:
  "DS3231_ToDateTime 983318400 dt =
     Inr (dt\<lparr>Date := 28, Month := 2, Year := 2001, Hour_24mode := 0, Minute := 0, Second := 0,
             Day := 3\<rparr>)"
  unfolding DS3231_ToDateTime_def
  by (simp add: year_loop_1970_11381 month_loop_common_59 is_leap_year_def current_month_def
      day_of_week_def table_read_def days_in_month_def dow_def Let_def)

lemma ToUnixTime_2000_02_29:
  "DS3231_ToUnixTime
     \<lparr>Day = 2, Date = 29, Month = 2, Year = 2000, Hour_24mode = 0, Minute = 0, Second = 0,
      Enable = DS3231_ENABLED\<rparr> unixtime = Inr 951782400"
  by (simp add: DS3231_ToUnixTime_def Let_def for_months_february)

lemma ToUnixTime_2024_02_29:
  "DS3231_ToUnixTime
     \<lparr>Day = 4, Date = 29, Month = 2, Year = 2024, Hour_24mode = 0, Minute = 0, Second = 0,
      Enable = DS3231_ENABLED\<rparr> unixtime = Inr 1709164800"
  by (simp add: DS3231_ToUnixTime_def Let_def for_months_february)

section \<open>February 29\<close>

text \<open>
  C8. 2000-02-29 and 2024-02-29 are converted to second counts that convert back to
  them, and no second count converts to 2001-02-29 or to 2023-02-29.
\<close>

theorem C8_leap_day_boundary:
  "DS3231_ToUnixTime
     \<lparr>Day = 2, Date = 29, Month = 2, Year = 2000, Hour_24mode = 0, Minute = 0, Second = 0,
      Enable = DS3231_ENABLED\<rparr> unixtime = Inr 951782400
   \<and> DS3231_ToDateTime 951782400 dt =
       Inr (dt\<lparr>Date := 29, Month := 2, Year := 2000, Hour_24mode := 0, Minute := 0,
               Second := 0, Day := 2\<rparr>)
   \<and> DS3231_ToUnixTime
       \<lparr>Day = 4, Date = 29, Month = 2, Year = 2024, Hour_24mode = 0, Minute = 0, Second = 0,
        Enable = DS3231_ENABLED\<rparr> unixtime = Inr 1709164800
   \<and> DS3231_ToDateTime 1709164800 dt =
       Inr (dt\<lparr>Date := 29, Month := 2, Year := 2024, Hour_24mode := 0, Minute := 0,
               Second := 0, Day := 4\<rparr>)
   \<and> (\<forall>u d d'. DS3231_ToDateTime u d = Inr d' \<longrightarrow>
         \<not> (Year d' = 2001 \<and> Month d' = 2 \<and> Date d' = 29)
         \<and> \<not> (Year d' = 2023 \<and> Month d' = 2 \<and> Date d' = 29))"
proof -
  have "\<not> (Year d' = 2001 \<and> Month d' = 2 \<and> Date d' = 29)
         \<and> \<not> (Year d' = 2023 \<and> Month d' = 2 \<and> Date d' = 29)"
    if r: "DS3231_ToDateTime u d = Inr d'" for u d d'
  proof -
    have "Date d' \<le> 28" if "Year d' = 2001 \<or> Year d' = 2023" "Month d' = 2"
    proof -
      from that(1) have "\<not> is_leap_year (uint (Year d'))"
        by (auto simp: is_leap_year_def)
      from no_february_29_in_common_year [OF r this that(2)] show ?thesis .
    qed
    then show ?thesis
      by auto
  qed
  then show ?thesis
    using ToUnixTime_2000_02_29 ToDateTime_2000_02_29 ToUnixTime_2024_02_29
      ToDateTime_2024_02_29
    by blast
qed

theorem C8_leap_day_boundary_witness:
  "DS3231_ToDateTime 983318400
     \<lparr>Day = 0, Date = 0, Month = 0, Year = 0, Hour_24mode = 0, Minute = 0, Second = 0,
      Enable = DS3231_DISABLED\<rparr> =
   Inr \<lparr>Day = 3, Date = 28, Month = 2, Year = 2001, Hour_24mode = 0, Minute = 0, Second = 0,
        Enable = DS3231_DISABLED\<rparr>
   \<and> (\<exists>u. DS3231_ToDateTime u
            \<lparr>Day = 0, Date = 0, Month = 0, Year = 0, Hour_24mode = 0, Minute = 0, Second = 0,
             Enable = DS3231_DISABLED\<rparr> =
          Inr \<lparr>Day = 2, Date = 29, Month = 2, Year = 2000, Hour_24mode = 0, Minute = 0,
               Second = 0, Enable = DS3231_DISABLED\<rparr>)"
proof -
  note t = C8_leap_day_boundary
    [of 0 "\<lparr>Day = 0, Date = 0, Month = 0, Year = 0, Hour_24mode = 0, Minute = 0,
              Second = 0, Enable = DS3231_DISABLED\<rparr>"]
  from t have "DS3231_ToDateTime 951782400
            \<lparr>Day = 0, Date = 0, Month = 0, Year = 0, Hour_24mode = 0, Minute = 0, Second = 0,
             Enable = DS3231_DISABLED\<rparr> =
          Inr \<lparr>Day = 2, Date = 29, Month = 2, Year = 2000, Hour_24mode = 0, Minute = 0,
               Second = 0, Enable = DS3231_DISABLED\<rparr>"
    by simp
  then show ?thesis
    by (auto simp: ToDateTime_2001_02_28)
qed

section \<open>The second count of DS3231\_ToUnixTime\<close>

lemma month_len_False: "month_len False i = uint (days_in_month ! i)"
  by (simp add: month_len_def)

lemma for_months_sum:
  "i + n \<le> 12 \<Longrightarrow>
     for_months (int i + 1) (int (i + n) + 1) days
       = Inr (days + word_of_int (days_before False (i + n) - days_before False i))"
proof (induction n arbitrary: i days)
  case 0
  then show ?case
    by (simp add: for_months.simps [of "int i + 1"])
next
  case (Suc n)
  then have i: "i < 12" "Suc i + n \<le> 12"
    by simp_all
  let ?v = "days_in_month ! i"
  let ?A = "days_before False (Suc i + n)"
  have v: "ucast ?v = (word_of_int (month_len False i) :: 16 word)"
    unfolding month_len_False by (rule ucast_eq)
  have e: "(word_of_int (month_len False i) :: 16 word)
             + word_of_int (?A - days_before False (Suc i))
           = word_of_int (?A - days_before False i)"
  proof -
    have "month_len False i + (?A - days_before False (Suc i)) = ?A - days_before False i"
      by simp
    then show ?thesis
      unfolding wi_hom_add by (rule arg_cong)
  qed
  have "for_months (int i + 1) (int (i + Suc n) + 1) days
          = for_months (int (Suc i) + 1) (int (Suc i + n) + 1) (days + ucast ?v)"
    using i by (simp add: for_months.simps [of "int i + 1"] table_read_days_in_month)
  also have "\<dots> = Inr (days + ucast ?v + word_of_int (?A - days_before False (Suc i)))"
    by (rule Suc.IH [OF i(2)])
  also have "days + ucast ?v + word_of_int (?A - days_before False (Suc i))
               = days + word_of_int (?A - days_before False i)"
    unfolding v add.assoc e ..
  finally show ?case
    by simp
qed

lemma for_months_from_january:
  assumes "1 \<le> months" "months \<le> 12"
  shows "for_months 1 months days
           = Inr (days + word_of_int (days_before False (nat (months - 1))))"
proof -
  have "for_months (int 0 + 1) (int (0 + nat (months - 1)) + 1) days
          = Inr (days + word_of_int (days_before False (0 + nat (months - 1))
                                      - days_before False 0))"
    using assms by (intro for_months_sum) simp
  with assms show ?thesis
    by simp
qed

lemma days_before_table_all:
  "\<forall>k \<in> set [0..<13].
     days_before False k = sum_list (take k [31, 28, 31, 30, 31, 30, 31, 31, 30, 31, 30, 31])"
  by code_simp

lemma days_before_table:
  assumes "k \<le> 12"
  shows "days_before False k = sum_list (take k [31, 28, 31, 30, 31, 30, 31, 31, 30, 31, 30, 31])"
proof -
  from assms have "k \<in> set [0..<13]"
    by simp
  with days_before_table_all show ?thesis
    by blast
qed

lemma days_before_range:
  assumes "k \<le> 12"
  shows "0 \<le> days_before f k" "days_before f k \<le> 366"
proof -
  from assms have "0 + k \<le> 12" "k + (12 - k) \<le> 12"
    by simp_all
  from days_before_mono [OF this(1), of f] show "0 \<le> days_before f k"
    by simp
  from days_before_mono [OF \<open>k + (12 - k) \<le> 12\<close>, of f] assms show "days_before f k \<le> 366"
    by (simp add: days_before_12 split: if_splits)
qed

lemma day_count_bounds:
  fixes a b c y q :: int
  assumes "1 \<le> a" "a \<le> 255" "0 \<le> b" "b \<le> 366" "0 \<le> c" "c \<le> 1" "0 \<le> y" "y \<le> 99"
    "0 \<le> q" "q \<le> 25"
  shows "0 \<le> a - 1 + b + c + (365 * y + q)" "a - 1 + b + c + (365 * y + q) \<le> 36781"
  using assms by linarith+

lemma ToUnixTime_value:
  assumes y: "2000 \<le> Year t" "Year t \<le> 2099"
    and m: "1 \<le> Month t" "Month t \<le> 12"
    and d: "1 \<le> Date t"
  defines "D \<equiv> uint (Date t) - 1 + days_before False (nat (uint (Month t) - 1))
      + (if 2 < uint (Month t) \<and> (uint (Year t) - 2000) mod 4 = 0 then 1 else 0)
      + (365 * (uint (Year t) - 2000) + (uint (Year t) - 2000 + 3) div 4)"
  shows "DS3231_ToUnixTime t unixtime =
           Inr (word_of_int (((D * 24 + uint (Hour_24mode t)) * 60 + uint (Minute t)) * 60
                             + uint (Second t) + 946684800))"
    and "0 \<le> D" and "D \<le> 36781"
proof -
  let ?Y = "uint (Year t) - 2000"
  let ?M = "uint (Month t)"
  let ?d = "uint (Date t)"
  let ?db = "days_before False (nat (?M - 1))"
  let ?adj = "if 2 < ?M \<and> ?Y mod 4 = 0 then 1 else 0 :: int"
  have Y: "0 \<le> ?Y" "?Y \<le> 99"
    using y by (simp_all add: word_le_def)
  have M: "1 \<le> ?M" "?M \<le> 12"
    using m by (simp_all add: word_le_def)
  have dd: "1 \<le> ?d" "?d \<le> 255"
    using d uint_bounded [of "Date t"] by (simp_all add: word_le_def)
  have db: "0 \<le> ?db" "?db \<le> 366"
    using M by (intro days_before_range; simp)+
  have adj: "0 \<le> ?adj" "?adj \<le> 1"
    by simp_all
  have q: "0 \<le> (?Y + 3) div 4" "(?Y + 3) div 4 \<le> 25"
    using Y by presburger+
  show D0: "0 \<le> D"
    unfolding D_def by (rule day_count_bounds(1) [OF dd db adj Y q])
  show D1: "D \<le> 36781"
    unfolding D_def by (rule day_count_bounds(2) [OF dd db adj Y q])
  have years: "uint (Year t - 2000) = ?Y"
  proof -
    have "uint (2000 :: 16 word) \<le> uint (Year t)"
      using y(1) by (simp add: word_le_def)
    then have "uint (Year t - 2000) = uint (Year t) - uint (2000 :: 16 word)"
      by (simp only: uint_sub_lem)
    then show ?thesis
      by simp
  qed
  have cond: "(2 < Month t \<and> (Year t - 2000) mod 4 = 0) = (2 < ?M \<and> ?Y mod 4 = 0)"
  proof -
    have "((Year t - 2000) mod 4 = 0) = (uint ((Year t - 2000) mod 4) = 0)"
      by (simp add: uint_0_iff)
    also have "\<dots> = (?Y mod 4 = 0)"
      by (simp add: uint_mod years)
    finally show ?thesis
      by (simp add: word_less_alt)
  qed
  have days1: "(ucast (Date t) :: 16 word) - 1 = word_of_int (?d - 1)"
    unfolding ucast_eq by simp
  have loop: "for_months 1 ?M ((ucast (Date t) :: 16 word) - 1)
                = Inr (word_of_int (?d - 1 + ?db))"
    unfolding days1 for_months_from_january [OF M] wi_hom_add ..
  have days2: "(if 2 < Month t \<and> (Year t - 2000) mod 4 = 0
                then (word_of_int (?d - 1 + ?db) :: 16 word) + 1
                else word_of_int (?d - 1 + ?db))
               = word_of_int (?d - 1 + ?db + ?adj)"
    unfolding cond by simp
  have u2: "uint (word_of_int (?d - 1 + ?db + ?adj) :: 16 word) = ?d - 1 + ?db + ?adj"
    using dd db by (intro uint_word16_small) (simp_all split: if_splits)
  have days3: "uint (word_of_int (?d - 1 + ?db + ?adj) :: 16 word)
                 + (365 * uint (Year t - 2000) + (uint (Year t - 2000) + 3) div 4) = D"
    unfolding u2 years D_def ..
  have u3: "(ucast (word_of_int D :: 16 word) :: 32 word) = word_of_int D"
    unfolding ucast_eq using D0 D1 by (simp add: uint_word16_small)
  have fin: "((word_of_int D * 24 + ucast (Hour_24mode t)) * 60 + ucast (Minute t)) * 60
               + ucast (Second t) + (946684800 :: 32 word)
             = word_of_int (((D * 24 + uint (Hour_24mode t)) * 60 + uint (Minute t)) * 60
                            + uint (Second t) + 946684800)"
    unfolding ucast_eq by simp
  have ge: "2000 \<le> Year t"
    by (rule y)
  show "DS3231_ToUnixTime t unixtime =
           Inr (word_of_int (((D * 24 + uint (Hour_24mode t)) * 60 + uint (Minute t)) * 60
                             + uint (Second t) + 946684800))"
    unfolding DS3231_ToUnixTime_def Let_def loop sum.case days2 days3 u3 fin
    using ge by simp
qed

lemma uint_word32_small:
  "0 \<le> k \<Longrightarrow> k < 4294967296 \<Longrightarrow> uint (word_of_int k :: 32 word) = k"
  by (simp add: uint_word_of_int take_bit_eq_mod)

lemma second_count_bounds:
  fixes D h m s :: int
  assumes "0 \<le> D" "D \<le> 36781" "0 \<le> h" "h \<le> 23" "0 \<le> m" "m \<le> 59" "0 \<le> s" "s \<le> 59"
  shows "0 \<le> ((D * 24 + h) * 60 + m) * 60 + s + 946684800"
    "((D * 24 + h) * 60 + m) * 60 + s + 946684800 < 4294967296"
  using assms by (simp_all add: ring_distribs)

lemma spec_total_days_eq:
  assumes "1 \<le> m" "m \<le> 12"
  shows "spec_total_days y m d =
           d - 1 + days_before False (nat (m - 1))
           + (if 2 < m \<and> (y - 2000) mod 4 = 0 then 1 else 0)
           + (365 * (y - 2000) + (y - 2000 + 3) div 4)"
proof -
  from assms have "nat (m - 1) \<le> 12"
    by simp
  from days_before_table [OF this] show ?thesis
    unfolding spec_total_days_def Let_def by simp
qed

lemma ToUnixTime_spec:
  assumes "valid_BrokenDownTime t"
  shows "DS3231_ToUnixTime t unixtime = Inr (word_of_int (spec_to_epoch t + 946684800))"
    and "uint (word_of_int (spec_to_epoch t + 946684800) :: 32 word)
           = spec_to_epoch t + 946684800"
proof -
  from assms have y: "2000 \<le> Year t" "Year t \<le> 2099"
    and m: "1 \<le> Month t" "Month t \<le> 12" and d: "1 \<le> Date t"
    and hms: "Hour_24mode t \<le> 23" "Minute t \<le> 59" "Second t \<le> 59"
    by (simp_all add: valid_BrokenDownTime_def)
  have M: "1 \<le> uint (Month t)" "uint (Month t) \<le> 12"
    using m by (simp_all add: word_le_def)
  have h: "0 \<le> uint (Hour_24mode t)" "uint (Hour_24mode t) \<le> 23"
    "0 \<le> uint (Minute t)" "uint (Minute t) \<le> 59"
    "0 \<le> uint (Second t)" "uint (Second t) \<le> 59"
    using hms by (simp_all add: word_le_def)
  note v = ToUnixTime_value [OF y m d]
  note D = spec_total_days_eq [OF M, of "uint (Year t)" "uint (Date t)", symmetric]
  show "DS3231_ToUnixTime t unixtime = Inr (word_of_int (spec_to_epoch t + 946684800))"
    using v(1) unfolding D spec_to_epoch_def .
  from second_count_bounds [OF v(2,3) h]
  show "uint (word_of_int (spec_to_epoch t + 946684800) :: 32 word)
           = spec_to_epoch t + 946684800"
    unfolding D spec_to_epoch_def by (intro uint_word32_small)
qed

text \<open>
  C4 (as amended). For every valid broken-down time with its year in 2000 to 2099,
  \<^verbatim>\<open>DS3231_ToUnixTime\<close> stores the second count of steps 2 to 7, which is anchored at
  2000-01-01, plus the constant 946684800 (\<^verbatim>\<open>SECONDS_FROM_1970_TO_2000\<close>); the sum fits
  the 32-bit result without wrapping.
\<close>

theorem C4_epoch_formula_with_offset:
  "valid_BrokenDownTime t \<Longrightarrow>
     DS3231_ToUnixTime t unixtime = Inr (word_of_int (spec_to_epoch t + 946684800))
     \<and> uint (word_of_int (spec_to_epoch t + 946684800) :: 32 word)
         = spec_to_epoch t + 946684800"
  using ToUnixTime_spec(1) [of t unixtime] ToUnixTime_spec(2) [of t] by simp

theorem C4_epoch_formula_with_offset_witness:
  "valid_BrokenDownTime
     \<lparr>Day = 4, Date = 29, Month = 2, Year = 2024, Hour_24mode = 12, Minute = 34, Second = 56,
      Enable = DS3231_ENABLED\<rparr>
   \<and> spec_to_epoch
       \<lparr>Day = 4, Date = 29, Month = 2, Year = 2024, Hour_24mode = 12, Minute = 34,
        Second = 56, Enable = DS3231_ENABLED\<rparr> = 762525296
   \<and> DS3231_ToUnixTime
       \<lparr>Day = 4, Date = 29, Month = 2, Year = 2024, Hour_24mode = 12, Minute = 34,
        Second = 56, Enable = DS3231_ENABLED\<rparr> 0 = Inr 1709210096"
proof -
  let ?t = "\<lparr>Day = 4, Date = 29, Month = 2, Year = 2024, Hour_24mode = 12, Minute = 34,
             Second = 56, Enable = DS3231_ENABLED\<rparr>"
  have v: "valid_BrokenDownTime ?t"
    by (simp add: valid_BrokenDownTime_def spec_days_in_month_def)
  have e: "spec_to_epoch ?t = 762525296"
    by (simp add: spec_to_epoch_def spec_total_days_def)
  from C4_epoch_formula_with_offset [OF v, of 0] have "DS3231_ToUnixTime ?t 0 = Inr 1709210096"
    unfolding e by simp
  with v e show ?thesis
    by simp
qed

text \<open>
  The claim as stated fails: for 2000-01-01T00:00:00 the formula of steps 2 to 7 gives 0,
  and the function stores 946684800.
\<close>

theorem C4_no_offset_counterexample:
  "spec_to_epoch
     \<lparr>Day = 6, Date = 1, Month = 1, Year = 2000, Hour_24mode = 0, Minute = 0, Second = 0,
      Enable = DS3231_ENABLED\<rparr> = 0
   \<and> DS3231_ToUnixTime
       \<lparr>Day = 6, Date = 1, Month = 1, Year = 2000, Hour_24mode = 0, Minute = 0, Second = 0,
        Enable = DS3231_ENABLED\<rparr> 0 = Inr 946684800
   \<and> DS3231_ToUnixTime
       \<lparr>Day = 6, Date = 1, Month = 1, Year = 2000, Hour_24mode = 0, Minute = 0, Second = 0,
        Enable = DS3231_ENABLED\<rparr> 0
       \<noteq> Inr (word_of_int
                (spec_to_epoch
                   \<lparr>Day = 6, Date = 1, Month = 1, Year = 2000, Hour_24mode = 0, Minute = 0,
                    Second = 0, Enable = DS3231_ENABLED\<rparr>))"
proof -
  let ?t = "\<lparr>Day = 6, Date = 1, Month = 1, Year = 2000, Hour_24mode = 0, Minute = 0,
             Second = 0, Enable = DS3231_ENABLED\<rparr>"
  have e: "spec_to_epoch ?t = 0"
    by (simp add: spec_to_epoch_def spec_total_days_def)
  have u: "DS3231_ToUnixTime ?t 0 = Inr 946684800"
    by (simp add: DS3231_ToUnixTime_def Let_def for_months.simps)
  show ?thesis
    unfolding e u by simp
qed

section \<open>The round trip away from December 31\<close>

text \<open>
  For a valid broken-down time of the years 2000 to 2099 that is not a December 31, the
  second count of \<^verbatim>\<open>DS3231_ToUnixTime\<close> converts back to the same date and time, with
  the weekday of that date; converted back into the structure it came from, a structure
  whose weekday field holds the weekday of its date is reproduced exactly.
\<close>

lemma years_days_add:
  "years_days y (a + b) = years_days y a + years_days (y + int a) b"
  by (induction a arbitrary: y) (simp_all add: add.assoc add.left_commute add.commute)

lemma years_days_1970_30: "years_days 1970 30 = 10957"
  by code_simp

lemma leap_year_2000s:
  assumes "0 \<le> Y" "Y \<le> 99"
  shows "is_leap_year (2000 + Y) = (Y mod 4 = 0)"
  unfolding is_leap_year_def using assms by presburger

lemma years_days_2000:
  "n \<le> 100 \<Longrightarrow> years_days 2000 n = 365 * int n + (int n + 3) div 4"
proof (induction n)
  case 0
  then show ?case
    by simp
next
  case (Suc n)
  then have n: "0 \<le> int n" "int n \<le> 99"
    by simp_all
  have "years_days 2000 (n + 1) = years_days 2000 n + years_days (2000 + int n) 1"
    by (rule years_days_add)
  also have "years_days (2000 + int n) 1 = (if int n mod 4 = 0 then 366 else 365)"
    by (simp add: year_len_def leap_year_2000s [OF n])
  also have "years_days 2000 n = 365 * int n + (int n + 3) div 4"
    using Suc by simp
  finally have "years_days 2000 (Suc n)
      = 365 * int n + (int n + 3) div 4 + (if int n mod 4 = 0 then 366 else 365)"
    by simp
  also have "\<dots> = 365 * int (Suc n) + (int (Suc n) + 3) div 4"
    by (simp split: if_splits) presburger
  finally show ?case .
qed

lemma days_before_leap_all:
  "\<forall>k \<in> set [0..<13]. days_before True k = days_before False k + (if 2 \<le> k then 1 else 0)"
  by code_simp

lemma days_before_leap:
  assumes "k \<le> 12"
  shows "days_before True k = days_before False k + (if 2 \<le> k then 1 else 0)"
proof -
  from assms have "k \<in> set [0..<13]"
    by simp
  with days_before_leap_all show ?thesis
    by blast
qed

lemma spec_days_in_month_eq:
  assumes "1 \<le> m" "m \<le> 12"
  shows "spec_days_in_month m y = month_len (y mod 4 = 0) (nat (m - 1))"
  using month_1_to_12 [OF assms]
  by (elim disjE) (simp_all add: spec_days_in_month_def month_len_def days_in_month_def)

lemma split_seconds:
  fixes TD h m s :: int
  assumes "0 \<le> h" "h \<le> 23" "0 \<le> m" "m \<le> 59" "0 \<le> s" "s \<le> 59"
  defines "N \<equiv> ((TD * 24 + h) * 60 + m) * 60 + s + 946684800"
  shows "N div 86400 = 10957 + TD"
    and "(N mod 86400) div 3600 = h"
    and "((N mod 86400) mod 3600) div 60 = m"
    and "((N mod 86400) mod 3600) mod 60 = s"
proof -
  let ?r = "3600 * h + (60 * m + s)"
  have N: "N = 86400 * (10957 + TD) + ?r"
    by (simp add: N_def algebra_simps)
  have r: "0 \<le> ?r" "?r < 86400"
    using assms(1-6) by linarith+
  have q: "0 \<le> 60 * m + s" "60 * m + s < 3600"
    using assms(1-6) by linarith+
  have s: "0 \<le> s" "s < 60"
    using assms(1-6) by linarith+
  show "N div 86400 = 10957 + TD"
    using N r by (rule int_div_pos_eq)
  have m1: "N mod 86400 = ?r"
    using N r by (rule int_mod_pos_eq)
  show "(N mod 86400) div 3600 = h"
    unfolding m1 using refl q by (rule int_div_pos_eq)
  have m2: "?r mod 3600 = 60 * m + s"
    using refl q by (rule int_mod_pos_eq)
  show "((N mod 86400) mod 3600) div 60 = m"
    unfolding m1 m2 using refl s by (rule int_div_pos_eq)
  show "((N mod 86400) mod 3600) mod 60 = s"
    unfolding m1 m2 using refl s by (rule int_mod_pos_eq)
qed

lemma roundtrip_except_december_31:
  assumes v: "valid_BrokenDownTime t" and n: "\<not> (Month t = 12 \<and> Date t = 31)"
  shows "DS3231_ToDateTime (word_of_int (spec_to_epoch t + 946684800)) dt =
           Inr (dt\<lparr>Date := Date t, Month := Month t, Year := Year t,
                   Hour_24mode := Hour_24mode t, Minute := Minute t, Second := Second t,
                   Day := word_of_int
                            (spec_weekday (uint (Year t)) (uint (Month t)) (uint (Date t)))\<rparr>)"
proof -
  let ?w = "word_of_int (spec_to_epoch t + 946684800) :: 32 word"
  let ?year = "uint (Year t)"
  let ?M = "uint (Month t)"
  let ?d = "uint (Date t)"
  define Y where "Y = ?year - 2000"
  define i where "i = nat (?M - 1)"
  define leap where "leap = (Y mod 4 = 0)"
  define doy where "doy = days_before leap i + ?d - 1"
  from v have y: "2000 \<le> Year t" "Year t \<le> 2099"
    and m: "1 \<le> Month t" "Month t \<le> 12" and d: "1 \<le> Date t"
    and dmax: "?d \<le> spec_days_in_month ?M ?year"
    and hms: "Hour_24mode t \<le> 23" "Minute t \<le> 59" "Second t \<le> 59"
    by (simp_all add: valid_BrokenDownTime_def)
  have Y: "0 \<le> Y" "Y \<le> 99" "?year = 2000 + Y"
    using y by (simp_all add: Y_def word_le_def)
  have M: "1 \<le> ?M" "?M \<le> 12"
    using m by (simp_all add: word_le_def)
  have i: "i < 12" "int i + 1 = ?M" "i \<le> 12"
    using M by (simp_all add: i_def)
  have d1: "1 \<le> ?d"
    using d by (simp add: word_le_def)
  have h: "0 \<le> uint (Hour_24mode t)" "uint (Hour_24mode t) \<le> 23"
    "0 \<le> uint (Minute t)" "uint (Minute t) \<le> 59"
    "0 \<le> uint (Second t)" "uint (Second t) \<le> 59"
    using hms by (simp_all add: word_le_def)
  have leap: "is_leap_year ?year = leap"
    unfolding Y(3) leap_def by (rule leap_year_2000s [OF Y(1,2)])
  have "(?year mod 4 = 0) = leap"
    unfolding leap_def Y_def by presburger
  with dmax have dlen: "?d \<le> month_len leap i"
    by (simp add: spec_days_in_month_eq [OF M] i_def)
  have adj: "days_before leap i
               = days_before False i + (if 2 < ?M \<and> (?year - 2000) mod 4 = 0 then 1 else 0)"
  proof (cases leap)
    case True
    have "(2 \<le> i) = (2 < ?M)"
      using M by (auto simp: i_def)
    with True show ?thesis
      by (simp add: days_before_leap [OF i(3)] leap_def Y_def)
  next
    case False
    then show ?thesis
      by (simp add: leap_def Y_def)
  qed
  have yd: "years_days 2000 (nat Y) = 365 * Y + (Y + 3) div 4"
    using Y(1,2) years_days_2000 [of "nat Y"] by simp
  have "spec_total_days ?year ?M ?d
          = ?d - 1 + days_before False i
            + (if 2 < ?M \<and> (?year - 2000) mod 4 = 0 then 1 else 0)
            + (365 * Y + (Y + 3) div 4)"
    unfolding spec_total_days_eq [OF M] i_def Y_def ..
  also have "\<dots> = years_days 2000 (nat Y) + doy"
    unfolding yd doy_def adj by simp
  finally have TD: "spec_total_days ?year ?M ?d = years_days 2000 (nat Y) + doy" .
  have "years_days 1970 (30 + nat Y) = years_days 1970 30 + years_days (1970 + int 30) (nat Y)"
    by (rule years_days_add)
  then have y1970: "years_days 1970 (30 + nat Y) = 10957 + years_days 2000 (nat Y)"
    by (simp add: years_days_1970_30)
  have uw: "uint ?w = ((spec_total_days ?year ?M ?d * 24 + uint (Hour_24mode t)) * 60
                       + uint (Minute t)) * 60 + uint (Second t) + 946684800"
    using ToUnixTime_spec(2) [OF v] unfolding spec_to_epoch_def .
  note sp = split_seconds [OF h, of "spec_total_days ?year ?M ?d", folded uw]
  have u86400: "uint (86400 :: 32 word) = 86400"
    by simp
  have "uint (?w div 86400) = uint ?w div uint (86400 :: 32 word)"
    by (rule uint_div)
  also have "\<dots> = 10957 + spec_total_days ?year ?M ?d"
    unfolding u86400 by (rule sp(1))
  finally have dv: "uint (?w div 86400) = years_days 1970 (30 + nat Y) + doy"
    unfolding y1970 TD by simp
  have "uint (?w mod 86400) = uint ?w mod uint (86400 :: 32 word)"
    by (rule uint_mod)
  then have md: "uint (?w mod 86400) = uint ?w mod 86400"
    unfolding u86400 .
  have doy0: "0 \<le> doy"
    unfolding doy_def using d1 days_before_range(1) [OF i(3), of leap] by linarith
  have "days_before leap (Suc i + (11 - i)) = days_before leap 12"
    using i(1) by simp
  with days_before_mono [of "Suc i" "11 - i" leap] i(1)
  have "days_before leap (Suc i) \<le> days_before leap 12"
    by simp
  with dlen have "doy < days_before leap 12"
    by (simp add: doy_def)
  also have "days_before leap 12 = year_len ?year"
    using year_len_days_before [of ?year] by (simp add: leap)
  finally have doy1: "doy < year_len (1970 + int (30 + nat Y))"
    using Y by simp
  have yl: "year_loop 1970 (uint (?w div 86400)) = (?year, doy)"
    unfolding dv using year_loop_found [OF doy0 doy1] Y by simp
  have s1: "doy + 1 = days_before (is_leap_year ?year) i + ?d"
    by (simp add: leap doy_def)
  have s4: "?d \<le> month_len (is_leap_year ?year) i"
    by (simp add: leap dlen)
  have s5: "\<not> (i = 11 \<and> ?d = 31)"
  proof
    assume a: "i = 11 \<and> ?d = 31"
    with i(2) have "uint (Month t) = uint (12 :: 8 word)" "uint (Date t) = uint (31 :: 8 word)"
      by simp_all
    then have "Month t = 12 \<and> Date t = 31"
      by (simp only: word_uint_eq_iff)
    with n show False ..
  qed
  have "DS3231_ToDateTime ?w dt =
           Inr (dt\<lparr>Date := word_of_int ?d,
                   Month := word_of_int (int i + 1),
                   Year := word_of_int ?year,
                   Hour_24mode := word_of_int (uint (?w mod 86400) div 3600),
                   Minute := word_of_int ((uint (?w mod 86400) mod 3600) div 60),
                   Second := word_of_int ((uint (?w mod 86400) mod 3600) mod 60),
                   Day := word_of_int (spec_weekday ?year (int i + 1) ?d)\<rparr>)"
    by (rule ToDateTime_result [OF yl s1 i(1) d1 s4 s5])
  then show ?thesis
    unfolding md sp(2,3,4) i(2) word_of_int_uint .
qed

lemma roundtrip_in_place:
  assumes "valid_BrokenDownTime t" "\<not> (Month t = 12 \<and> Date t = 31)"
    and "Day t = word_of_int (spec_weekday (uint (Year t)) (uint (Month t)) (uint (Date t)))"
  shows "\<exists>w. DS3231_ToUnixTime t unixtime = Inr w \<and> DS3231_ToDateTime w t = Inr t"
proof -
  have "DS3231_ToDateTime (word_of_int (spec_to_epoch t + 946684800)) t = Inr t"
    unfolding roundtrip_except_december_31 [OF assms(1,2)] assms(3) [symmetric] by simp
  with ToUnixTime_spec(1) [OF assms(1), of unixtime] show ?thesis
    by blast
qed

section \<open>December 31\<close>

text \<open>
  On the last day of a year the month loop has consumed all twelve months when
  \<^verbatim>\<open>extraDays\<close> reaches 0; it then runs once more and reads \<^verbatim>\<open>days_in_month[12]\<close>.
\<close>

text \<open>
  C2, at the failing input 31449600 (1970-12-31T00:00:00): the conversion reads the
  month-length table at index 12.
\<close>

theorem C2_out_of_bounds_1970_12_31:
  "DS3231_ToDateTime 31449600 dt = Inl (IndexOutOfBounds 12)"
  unfolding DS3231_ToDateTime_def
  by (simp add: year_loop_1970_364 month_loop_common_365 is_leap_year_def Let_def)

text \<open>
  C3, at the failing input 1735603200 (2024-12-31T00:00:00), the month boundary of
  December in a leap year: the result is not December 31 but the read at index 12.
\<close>

theorem C3_out_of_bounds_2024_12_31:
  "DS3231_ToDateTime 1735603200 dt = Inl (IndexOutOfBounds 12)"
  unfolding DS3231_ToDateTime_def
  by (simp add: year_loop_1970_20088 month_loop_leap_366 is_leap_year_def Let_def)

text \<open>
  C7, at the failing input 1703980800 (2023-12-31T00:00:00, a Sunday): the conversion runs
  into the read at index 12 before it reaches the weekday lines, so no weekday that obeys
  the congruence comes out for this second count. Where the conversion does return,
  \<open>ToDateTime_weekday\<close> above shows that the weekday is the congruence of the returned
  date.
\<close>

theorem C7_no_weekday_2023_12_31:
  "DS3231_ToDateTime 1703980800 dt = Inl (IndexOutOfBounds 12)"
  unfolding DS3231_ToDateTime_def
  by (simp add: year_loop_1970_19722 month_loop_common_365 is_leap_year_def Let_def)

text \<open>
  C1, at the failing input 2000-12-31T00:00:00 (a Sunday, weekday 7): the second count is
  produced, and converting it back runs into the read at index 12 instead of returning
  the date.
\<close>

theorem C1_roundtrip_fails_2000_12_31:
  "DS3231_ToUnixTime
     \<lparr>Day = 7, Date = 31, Month = 12, Year = 2000, Hour_24mode = 0, Minute = 0, Second = 0,
      Enable = DS3231_ENABLED\<rparr> unixtime = Inr 978220800 \<and>
   DS3231_ToDateTime 978220800 dt = Inl (IndexOutOfBounds 12)"
proof -
  have "DS3231_ToDateTime 978220800 dt = Inl (IndexOutOfBounds 12)"
    unfolding DS3231_ToDateTime_def
    by (simp add: year_loop_1970_11322 month_loop_leap_366 is_leap_year_def Let_def)
  then show ?thesis
    by (simp add: DS3231_ToUnixTime_def Let_def for_months_december)
qed


end
